theory Spec2Isabelle
  imports Complex_Main "HOL-Library.Multiset" "HOL-Library.Log_Nat"
begin

section \<open>The timeline component (GanttChart.jsx)\<close>

subsection \<open>JavaScript numbers, as far as the component uses them\<close>

text \<open>
  The component divides two array lengths, multiplies by 100, rounds and compares with
  a threshold. The values that can arise are \<open>NaN\<close> (from 0/0), \<open>Infinity\<close> (from
  n/0 with n > 0) and finite numbers. A finite number is an IEEE 754 binary64 value,
  carried here as the rational it denotes. Every arithmetic operation of the language
  returns the exact result rounded to the nearest binary64 value, ties to the even
  significand; \<open>to_double\<close> is that rounding, to 53 significant bits. The exponent
  range is not bounded in the model: it agrees with binary64 for magnitudes from
  \<open>2^-1022\<close> up to \<open>2^1024\<close>, and the quotients and products of the component lie
  between \<open>2^-32\<close> and 100, because an array has fewer than \<open>2^32\<close> elements (so
  that a length is itself a binary64 value).
\<close>

datatype jsnum = NaN | PosInf | Num rat

definition binade :: "rat \<Rightarrow> int" where
  \<comment> \<open>for \<open>x > 0\<close> the exponent \<open>e\<close> with \<open>2^e \<le> x < 2^(e+1)\<close>\<close>
  "binade x =
     (case quotient_of x of (a, b) \<Rightarrow>
        (let e = bitlen a - bitlen b in if 2 powi e \<le> x then e else e - 1))"

definition round_half_even :: "rat \<Rightarrow> int" where
  \<comment> \<open>the nearest integer, a tie going to the even one\<close>
  "round_half_even q =
     (let f = \<lfloor>q\<rfloor>; r = q - of_int f
      in if r < 1 / 2 then f else if 1 / 2 < r then f + 1 else if even f then f else f + 1)"

definition to_double :: "rat \<Rightarrow> rat" where
  \<comment> \<open>the nearest number with a 53-bit significand: a multiple of \<open>2^(e-52)\<close>\<close>
  "to_double x =
     (if x = 0 then 0
      else let q = 2 powi (binade \<bar>x\<bar> - 52)
           in sgn x * of_int (round_half_even (\<bar>x\<bar> / q)) * q)"

definition js_div :: "nat \<Rightarrow> nat \<Rightarrow> jsnum" where
  \<comment> \<open>\<open>a / b\<close> for two array lengths\<close>
  "js_div a b =
     (if b = 0 then (if a = 0 then NaN else PosInf) else Num (to_double (of_nat a / of_nat b)))"

fun js_times :: "jsnum \<Rightarrow> rat \<Rightarrow> jsnum" where
  \<comment> \<open>\<open>x * k\<close> for a positive constant k that is a binary64 value\<close>
  "js_times NaN k = NaN"
| "js_times PosInf k = PosInf"
| "js_times (Num q) k = Num (to_double (q * k))"

fun Math_round :: "jsnum \<Rightarrow> jsnum" where
  \<comment> \<open>\<open>Math.round\<close>: the nearest integer, halves rounded up; the result is exact\<close>
  "Math_round NaN = NaN"
| "Math_round PosInf = PosInf"
| "Math_round (Num q) = Num (of_int \<lfloor>q + 1 / 2\<rfloor>)"

fun js_ge :: "jsnum \<Rightarrow> rat \<Rightarrow> bool" where
  \<comment> \<open>\<open>x >= k\<close>: every comparison with NaN is false\<close>
  "js_ge NaN k = False"
| "js_ge PosInf k = True"
| "js_ge (Num q) k = (k \<le> q)"

subsection \<open>Tasks and the status toggle\<close>

text \<open>
  A task is a JavaScript object decoded from the plan's JSON. The component reads the
  fields below; the record is extensible, so that whatever other fields the object
  carries are part of the model too (the object spread \<open>{...task, status: s}\<close> copies
  all of them). The type of the id is left open: \<open>===\<close> on JSON strings and numbers
  is equality.
\<close>

record 'i task =
  task_id :: 'i
  name :: string
  assignee :: string
  status :: string
  start_date :: string
  end_date :: string
  duration_days :: int

definition toggleTaskStatus :: "'i \<Rightarrow> ('i, 'z) task_scheme list \<Rightarrow> ('i, 'z) task_scheme list" where
  \<comment> \<open>the updater passed to \<open>setTasks\<close>: previous state in, next state out\<close>
  "toggleTaskStatus taskId prevTasks =
     map (\<lambda>task.
            if task_id task = taskId
            then task\<lparr>status := (if status task = ''completed'' then ''pending'' else ''completed'')\<rparr>
            else task)
         prevTasks"

subsection \<open>Progress and milestones\<close>

definition completedTasks :: "('i, 'z) task_scheme list \<Rightarrow> nat" where
  "completedTasks tasks = length (filter (\<lambda>t. status t = ''completed'') tasks)"

definition overallProgress :: "('i, 'z) task_scheme list \<Rightarrow> jsnum" where
  "overallProgress tasks = Math_round (js_times (js_div (completedTasks tasks) (length tasks)) 100)"

record milestone =
  milestone_name :: string
  percentage :: rat
  completed :: bool

definition milestones :: "('i, 'z) task_scheme list \<Rightarrow> milestone list" where
  "milestones tasks =
     [\<lparr>milestone_name = ''Project Start'', percentage = 0, completed = True\<rparr>,
      \<lparr>milestone_name = ''Planning Phase'', percentage = 25,
         completed = js_ge (overallProgress tasks) 25\<rparr>,
      \<lparr>milestone_name = ''Development Phase'', percentage = 50,
         completed = js_ge (overallProgress tasks) 50\<rparr>,
      \<lparr>milestone_name = ''Testing Phase'', percentage = 75,
         completed = js_ge (overallProgress tasks) 75\<rparr>,
      \<lparr>milestone_name = ''Project Complete'', percentage = 100,
         completed = js_ge (overallProgress tasks) 100\<rparr>]"

subsection \<open>Grouping by team member\<close>

text \<open>
  \<open>tasksByMember\<close> starts as the object literal \<open>{}\<close>, whose prototype is
  \<open>Object.prototype\<close>. A property read goes through the prototype chain, so for the
  names below \<open>tasksByMember[key]\<close> is an inherited function or object. It is truthy,
  the guard \<open>!tasksByMember[key]\<close> is false, no array is stored, and the call of
  \<open>push\<close> on the inherited value throws a TypeError.
\<close>

datatype js_error = TypeError

definition Object_prototype_keys :: "string list" where
  "Object_prototype_keys =
     [''constructor'', ''__defineGetter__'', ''__defineSetter__'', ''hasOwnProperty'',
      ''__lookupGetter__'', ''__lookupSetter__'', ''isPrototypeOf'', ''propertyIsEnumerable'',
      ''toString'', ''valueOf'', ''__proto__'', ''toLocaleString'']"

datatype 'a property_value = Undefined | Inherited | OwnArray "'a list"

definition get_property :: "(string \<times> 'a list) list \<Rightarrow> string \<Rightarrow> 'a property_value" where
  \<comment> \<open>\<open>tasksByMember[key]\<close>: an own property first, then the prototype\<close>
  "get_property own key =
     (case map_of own key of
        Some xs \<Rightarrow> OwnArray xs
      | None \<Rightarrow> if key \<in> set Object_prototype_keys then Inherited else Undefined)"

fun truthy :: "'a property_value \<Rightarrow> bool" where
  \<comment> \<open>an array is truthy even when empty, and so are the inherited functions\<close>
  "truthy Undefined = False"
| "truthy Inherited = True"
| "truthy (OwnArray xs) = True"

fun push_member :: "string \<Rightarrow> 'a \<Rightarrow> (string \<times> 'a list) list \<Rightarrow> (string \<times> 'a list) list" where
  \<comment> \<open>\<open>push\<close> on the array stored under an own property\<close>
  "push_member key x [] = []"
| "push_member key x ((k, xs) # rest) =
     (if k = key then (k, xs @ [x]) # rest else (k, xs) # push_member key x rest)"

definition group_step ::
  "('i, 'z) task_scheme \<Rightarrow> (string \<times> ('i, 'z) task_scheme list) list
     \<Rightarrow> js_error + (string \<times> ('i, 'z) task_scheme list) list" where
  \<comment> \<open>the body of the \<open>forEach\<close> callback; own properties are kept in creation order\<close>
  "group_step task own =
     (let own1 = (if \<not> truthy (get_property own (assignee task))
                  then own @ [(assignee task, [])] else own)
      in case get_property own1 (assignee task) of
           OwnArray xs \<Rightarrow> Inr (push_member (assignee task) task own1)
         | _ \<Rightarrow> Inl TypeError)"

fun group_tasks ::
  "('i, 'z) task_scheme list \<Rightarrow> (string \<times> ('i, 'z) task_scheme list) list
     \<Rightarrow> js_error + (string \<times> ('i, 'z) task_scheme list) list" where
  \<comment> \<open>the \<open>forEach\<close> loop: an exception ends it\<close>
  "group_tasks [] own = Inr own"
| "group_tasks (task # rest) own =
     (case group_step task own of
        Inl e \<Rightarrow> Inl e
      | Inr own' \<Rightarrow> group_tasks rest own')"

definition tasksByMember ::
  "('i, 'z) task_scheme list \<Rightarrow> js_error + (string \<times> ('i, 'z) task_scheme list) list" where
  "tasksByMember tasks = group_tasks tasks []"

text \<open>
  \<open>Object.entries\<close> lists the own properties whose name is an array index (a canonical
  decimal numeral below \<open>2^32 - 1\<close>) first, in ascending numeric order, and then the
  other names in creation order.
\<close>

definition is_digit :: "char \<Rightarrow> bool" where
  "is_digit c = (c \<in> set ''0123456789'')"

definition decimal_value :: "string \<Rightarrow> int" where
  "decimal_value s = foldl (\<lambda>a c. 10 * a + (of_char c - 48)) 0 s"

definition is_array_index :: "string \<Rightarrow> bool" where
  "is_array_index s =
     (s \<noteq> [] \<and> list_all is_digit s \<and> (s = ''0'' \<or> hd s \<noteq> CHR ''0'') \<and>
      decimal_value s < 4294967295)"

definition Object_entries :: "(string \<times> 'a) list \<Rightarrow> (string \<times> 'a) list" where
  "Object_entries own =
     sort_key (\<lambda>(k, v). decimal_value k) (filter (\<lambda>(k, v). is_array_index k) own)
     @ filter (\<lambda>(k, v). \<not> is_array_index k) own"

record color_scheme =
  bg :: string
  text_color :: string
  light :: string
  border :: string

definition neonColors :: "color_scheme list" where
  "neonColors =
     [\<lparr>bg = ''bg-cyan-500'', text_color = ''text-cyan-600'', light = ''bg-cyan-50'',
        border = ''border-cyan-200''\<rparr>,
      \<lparr>bg = ''bg-emerald-500'', text_color = ''text-emerald-600'', light = ''bg-emerald-50'',
        border = ''border-emerald-200''\<rparr>,
      \<lparr>bg = ''bg-orange-500'', text_color = ''text-orange-600'', light = ''bg-orange-50'',
        border = ''border-orange-200''\<rparr>,
      \<lparr>bg = ''bg-purple-500'', text_color = ''text-purple-600'', light = ''bg-purple-50'',
        border = ''border-purple-200''\<rparr>,
      \<lparr>bg = ''bg-pink-500'', text_color = ''text-pink-600'', light = ''bg-pink-50'',
        border = ''border-pink-200''\<rparr>,
      \<lparr>bg = ''bg-blue-500'', text_color = ''text-blue-600'', light = ''bg-blue-50'',
        border = ''border-blue-200''\<rparr>]"

definition getColorScheme :: "string \<Rightarrow> color_scheme" where
  \<comment> \<open>names are strings of 8-bit characters here; the index is always in range\<close>
  "getColorScheme a = neonColors ! (foldl (\<lambda>acc c. acc + of_char c) (0::nat) a mod length neonColors)"

record ('i, 'z) member_progress =
  member :: string
  member_tasks :: "('i, 'z) task_scheme list"
  completed_count :: nat
  total :: nat
  progress :: jsnum
  colorScheme :: color_scheme

definition member_entry :: "string \<times> ('i, 'z) task_scheme list \<Rightarrow> ('i, 'z) member_progress" where
  "member_entry e =
     (case e of (m, memberTasks) \<Rightarrow>
        \<lparr>member = m, member_tasks = memberTasks,
         completed_count = completedTasks memberTasks,
         total = length memberTasks,
         progress = Math_round (js_times (js_div (completedTasks memberTasks) (length memberTasks)) 100),
         colorScheme = getColorScheme m\<rparr>)"

definition teamProgress :: "('i, 'z) task_scheme list \<Rightarrow> js_error + ('i, 'z) member_progress list" where
  "teamProgress tasks =
     (case tasksByMember tasks of
        Inl e \<Rightarrow> Inl e
      | Inr own \<Rightarrow> Inr (map member_entry (Object_entries own)))"

subsection \<open>Sample tasks\<close>

definition pending_task :: "nat task" where
  "pending_task = \<lparr>task_id = 1, name = ''Design'', assignee = ''Ann'', status = ''pending'',
     start_date = ''2024-01-01'', end_date = ''2024-01-06'', duration_days = 5\<rparr>"

definition done_task :: "nat task" where
  "done_task = \<lparr>task_id = 2, name = ''Build'', assignee = ''Bob'', status = ''completed'',
     start_date = ''2024-01-06'', end_date = ''2024-01-16'', duration_days = 10\<rparr>"

definition constructor_task :: "nat task" where
  "constructor_task = \<lparr>task_id = 3, name = ''Review'', assignee = ''constructor'', status = ''pending'',
     start_date = ''2024-01-16'', end_date = ''2024-01-18'', duration_days = 2\<rparr>"

definition in_progress_task :: "nat task" where
  "in_progress_task = \<lparr>task_id = 4, name = ''Test'', assignee = ''Cy'', status = ''in_progress'',
     start_date = ''2024-01-18'', end_date = ''2024-01-21'', duration_days = 3\<rparr>"

definition tasks_38_of_51 :: "nat task list" where
  "tasks_38_of_51 = replicate 38 done_task @ replicate 13 pending_task"

definition tasks_23_of_40 :: "nat task list" where
  "tasks_23_of_40 = replicate 23 done_task @ replicate 17 pending_task"

subsection \<open>The invariant of the grouping loop\<close>

text \<open>
  After the tasks \<open>seen\<close> have been processed, the own properties hold one non-empty
  array per assignee, with that assignee's tasks in their order.
\<close>

definition grouped ::
  "('i, 'z) task_scheme list \<Rightarrow> (string \<times> ('i, 'z) task_scheme list) list \<Rightarrow> bool" where
  "grouped seen own \<longleftrightarrow>
     distinct (map fst own) \<and>
     (\<forall>(k, xs)\<in>set own. xs = filter (\<lambda>t. assignee t = k) seen \<and> xs \<noteq> []) \<and>
     fst ` set own = assignee ` set seen \<and>
     sum_list (map (\<lambda>(k, xs). length xs) own) = length seen"

section \<open>The planning engine\<close>

text \<open>
  Modelled from the spec: the backend that turns the task list of the language model
  into a dated plan is not among the sources (only the component that displays its
  output is), so the engine of sections 3 to 7 of the specification is written down
  here from its text. Dates are day numbers (days since a fixed epoch), durations are
  whole days, and the id of a task is its position in the normalised sequence.
\<close>

subsection \<open>Data model\<close>

datatype priority = High | Medium | Low

datatype completion = Pending | Completed

record Task =
  taskId :: nat
  taskName :: string
  taskDescription :: string
  durationDays :: nat
  dependsOn :: "nat list"
  taskAssignee :: string
  taskPriority :: priority
  taskStatus :: completion
  startDate :: int
  endDate :: int

record Plan =
  projectName :: string
  planStartDate :: int
  planTasks :: "Task list"
  teamMembers :: "string list"
  totalDurationDays :: nat
  planEndDate :: int

text \<open>
  Modelled from the spec: the raw output of the language model and the request of the
  calling layer (section 6). A field that is missing or has the wrong type is
  \<open>None\<close>; a payload that is not a sequence at all is \<open>NotASequence\<close>; a call that
  failed or timed out returned nothing.
\<close>

record raw_task =
  raw_name :: "string option"
  raw_description :: "string option"
  raw_duration :: "int option"
  raw_dependsOn :: "int list"
  raw_assignee :: "string option"
  raw_priority :: "string option"

datatype raw_payload = NotASequence | TaskSequence "raw_task list"

datatype upstream = UpstreamFailed | UpstreamTimedOut | Returned raw_payload

record request =
  upstream_result :: upstream
  request_startDate :: int
  request_roster :: "string list"
  request_totalDuration :: "nat option"
  transcript :: "(string \<times> string) list"

subsection \<open>Task Normalizer\<close>

definition is_blank :: "string \<Rightarrow> bool" where
  \<comment> \<open>Modelled from the spec: a missing or blank name (sections 3 and 4.1)\<close>
  "is_blank s = list_all (\<lambda>c. c = CHR '' '') s"

definition default_duration :: nat where
  \<comment> \<open>Modelled from the spec: the policy constant of section 4.1 (``e.g. 2 days'')\<close>
  "default_duration = 2"

definition normalize_priority :: "string option \<Rightarrow> priority" where
  \<comment> \<open>Modelled from the spec: unrecognised priorities become medium\<close>
  "normalize_priority p =
     (if p = Some ''high'' then High else if p = Some ''low'' then Low else Medium)"

definition normalize_task :: "nat \<Rightarrow> nat \<Rightarrow> raw_task \<Rightarrow> Task" where
  \<comment> \<open>Modelled from the spec: section 4.1, one item of a sequence of \<open>n\<close> items, at position \<open>i\<close>\<close>
  "normalize_task n i r =
     \<lparr>taskId = i,
      taskName = (case raw_name r of
                    None \<Rightarrow> ''Untitled Task''
                  | Some s \<Rightarrow> if is_blank s then ''Untitled Task'' else s),
      taskDescription = (case raw_description r of None \<Rightarrow> [] | Some s \<Rightarrow> s),
      durationDays = (case raw_duration r of
                        None \<Rightarrow> default_duration
                      | Some d \<Rightarrow> if 0 < d then nat d else default_duration),
      dependsOn = remdups (map nat (filter (\<lambda>d. 0 \<le> d \<and> d < int n) (raw_dependsOn r))),
      taskAssignee = (case raw_assignee r of None \<Rightarrow> [] | Some a \<Rightarrow> a),
      taskPriority = normalize_priority (raw_priority r),
      taskStatus = Pending,
      startDate = 0,
      endDate = 0\<rparr>"

fun normalize_tasks :: "raw_payload \<Rightarrow> Task list" where
  \<comment> \<open>Modelled from the spec: section 4.1; what is not a sequence is zero tasks\<close>
  "normalize_tasks NotASequence = []"
| "normalize_tasks (TaskSequence rs) = map (\<lambda>(i, r). normalize_task (length rs) i r) (enumerate 0 rs)"

subsection \<open>Dependency Resolver\<close>

text \<open>
  Modelled from the spec: section 4.2, a depth-first traversal with a visiting and a
  visited marking. \<open>visiting\<close> is the path from the root to the current task, \<open>out\<close>
  is the visited tasks in the order in which they were finished, each with the
  dependencies it keeps. A dependency that leads back into the path completes a cycle
  and is dropped (so is a reference to an unknown id); any other dependency is visited
  first and kept. The roots are taken in input order. The order of \<open>out\<close> is the
  order of finishing: it puts every task after the dependencies it keeps, but among
  tasks that are ready together it need not be the input order of the tie rule of
  section 4.2. The properties below use only that it is topological.
\<close>

function dfs ::
  "nat \<Rightarrow> (nat \<Rightarrow> nat list) \<Rightarrow> nat list \<Rightarrow> nat list \<Rightarrow> (nat \<times> nat list) list
     \<Rightarrow> (nat \<times> nat list) list \<times> nat list" where
  "dfs n g visiting [] out = (out, [])"
| "dfs n g visiting (d # ds) out =
     (if d \<in> set visiting \<or> n \<le> d then dfs n g visiting ds out
      else
        let out1 = (if d \<in> fst ` set out then out
                    else (case dfs n g (d # visiting) (g d) out of
                            (out', kept) \<Rightarrow> out' @ [(d, kept)]));
            r = dfs n g visiting ds out1
        in (fst r, d # snd r))"
  by pat_completeness auto
termination
proof (relation "inv_image (less_than <*lex*> less_than)
          (\<lambda>(n, g, visiting, ds, out). (card ({0..<n} - set visiting), length ds))")
  show "wf (inv_image (less_than <*lex*> less_than)
          (\<lambda>(n, g, visiting, ds, out). (card ({0..<n} - set visiting), length ds)))"
    by (intro wf_inv_image wf_lex_prod wf_less_than)
next
  fix n :: nat and g :: "nat \<Rightarrow> nat list" and visiting d ds and out :: "(nat \<times> nat list) list"
  assume "\<not> (d \<in> set visiting \<or> n \<le> d)"
  then have "d \<in> {0..<n} - set visiting" by simp
  then have "card ({0..<n} - set visiting - {d}) < card ({0..<n} - set visiting)"
    by (intro card_Diff1_less) simp_all
  moreover have "{0..<n} - set (d # visiting) = {0..<n} - set visiting - {d}" by auto
  ultimately have "card ({0..<n} - set (d # visiting)) < card ({0..<n} - set visiting)"
    by simp
  then show "((n, g, d # visiting, g d, out), n, g, visiting, d # ds, out)
       \<in> inv_image (less_than <*lex*> less_than)
          (\<lambda>(n, g, visiting, ds, out). (card ({0..<n} - set visiting), length ds))"
    by simp
qed simp_all

definition deps_of :: "Task list \<Rightarrow> nat \<Rightarrow> nat list" where
  \<comment> \<open>Modelled from the spec: the prerequisites of the task with a given id\<close>
  "deps_of ts i = (if i < length ts then dependsOn (ts ! i) else [])"

definition resolution :: "Task list \<Rightarrow> (nat \<times> nat list) list" where
  \<comment> \<open>Modelled from the spec: the traversal from every task, in input order\<close>
  "resolution ts = fst (dfs (length ts) (deps_of ts) [] [0..<length ts] [])"

definition back_edges :: "Task list \<Rightarrow> (nat \<times> nat) list" where
  \<comment> \<open>Modelled from the spec: the dependencies that were dropped, as (task, prerequisite):
     for a normalised task list, the edges that complete a cycle\<close>
  "back_edges ts =
     concat (map (\<lambda>(u, kept). map (\<lambda>d. (u, d)) (filter (\<lambda>d. d \<notin> set kept) (deps_of ts u)))
                 (resolution ts))"

definition resolved_tasks :: "Task list \<Rightarrow> Task list" where
  \<comment> \<open>Modelled from the spec: the tasks in execution order, with the dependencies they keep\<close>
  "resolved_tasks ts = map (\<lambda>(u, kept). (ts ! u)\<lparr>dependsOn := kept\<rparr>) (resolution ts)"

datatype resolve_error = CyclicDependency "nat list"

definition resolve_strict :: "Task list \<Rightarrow> resolve_error + Task list" where
  \<comment> \<open>Modelled from the spec: the resolver proper fails on a cycle and names the offending tasks\<close>
  "resolve_strict ts =
     (if back_edges ts = [] then Inr (resolved_tasks ts)
      else Inl (CyclicDependency (remdups (concat (map (\<lambda>(u, d). [u, d]) (back_edges ts))))))"

definition resolve :: "Task list \<Rightarrow> Task list" where
  \<comment> \<open>Modelled from the spec: the engine's recovery, which severs the back edges and goes on\<close>
  "resolve ts = (case resolve_strict ts of Inr xs \<Rightarrow> xs | Inl e \<Rightarrow> resolved_tasks ts)"

subsection \<open>Date Scheduler\<close>

fun schedule :: "int \<Rightarrow> (nat \<rightharpoonup> int) \<Rightarrow> Task list \<Rightarrow> Task list" where
  \<comment> \<open>Modelled from the spec: section 4.3, one forward pass; \<open>ends\<close> holds the end dates so far\<close>
  "schedule start ends [] = []"
| "schedule start ends (t # ts) =
     (let s = (if dependsOn t = [] then start
               else Max (set (map (\<lambda>d. case ends d of Some e \<Rightarrow> e | None \<Rightarrow> start) (dependsOn t))));
          e = s + int (durationDays t)
      in t\<lparr>startDate := s, endDate := e\<rparr> # schedule start (ends(taskId t \<mapsto> e)) ts)"

subsection \<open>Assignment Balancer\<close>

fun decimal :: "nat \<Rightarrow> string" where
  \<comment> \<open>Modelled from the spec: the number in a generic member's name, in decimal\<close>
  "decimal k =
     (let digit = ''0123456789'' ! (k mod 10)
      in if k < 10 then [digit] else decimal (k div 10) @ [digit])"

definition generic_roster :: "nat \<Rightarrow> string list" where
  \<comment> \<open>Modelled from the spec: generic names, ``Team Member 1'' and so on\<close>
  "generic_roster k = map (\<lambda>i. ''Team Member '' @ decimal (Suc i)) [0..<k]"

definition known_members :: "string list \<Rightarrow> string list" where
  \<comment> \<open>Modelled from the spec: the distinct names of a roster\<close>
  "known_members roster = remdups (filter (\<lambda>m. \<not> is_blank m) roster)"

definition effective_roster :: "string list \<Rightarrow> Task list \<Rightarrow> string list" where
  \<comment> \<open>Modelled from the spec: section 4.4; without a roster, generic names, as many as the
     data names assignees, and at least one\<close>
  "effective_roster roster ts =
     (if known_members roster \<noteq> [] then known_members roster
      else generic_roster (max 1 (length (known_members (map taskAssignee ts)))))"

definition load :: "Task list \<Rightarrow> string \<Rightarrow> nat" where
  \<comment> \<open>Modelled from the spec: the task count of a member, computed from the current task list\<close>
  "load ts m = length (filter (\<lambda>t. taskAssignee t = m) ts)"

fun least_loaded :: "(string \<Rightarrow> nat) \<Rightarrow> string list \<Rightarrow> string" where
  \<comment> \<open>Modelled from the spec: the least loaded member, the earlier one in the roster on a tie\<close>
  "least_loaded f [] = ''Team Member 1''"
| "least_loaded f [m] = m"
| "least_loaded f (m # ms) = (let b = least_loaded f ms in if f m \<le> f b then m else b)"

fun balance :: "string list \<Rightarrow> Task list \<Rightarrow> Task list \<Rightarrow> Task list" where
  \<comment> \<open>Modelled from the spec: section 4.4; \<open>assigned\<close> is the tasks already passed\<close>
  "balance roster assigned [] = assigned"
| "balance roster assigned (t # ts) =
     (if taskAssignee t \<in> set roster then balance roster (assigned @ [t]) ts
      else balance roster
             (assigned @ [t\<lparr>taskAssignee := least_loaded (load (assigned @ t # ts)) roster\<rparr>]) ts)"

subsection \<open>Fallback Plan Generator\<close>

definition split_words :: "string \<Rightarrow> string list" where
  \<comment> \<open>Modelled from the spec: the defensive text parsing of section 6, word by word\<close>
  "split_words s =
     filter (\<lambda>w. w \<noteq> [])
       (foldr (\<lambda>c ws. if c = CHR '' '' then [] # ws else (c # hd ws) # tl ws) s [[]])"

definition parse_count :: "string \<Rightarrow> nat option" where
  \<comment> \<open>Modelled from the spec: an explicit count is a word of digits\<close>
  "parse_count w = (if w \<noteq> [] \<and> list_all is_digit w then Some (nat (decimal_value w)) else None)"

definition unit_days :: "string \<Rightarrow> nat option" where
  \<comment> \<open>Modelled from the spec: days, weeks of 7 days, months of 30 days\<close>
  "unit_days w =
     (if w \<in> set [''day'', ''days''] then Some 1
      else if w \<in> set [''week'', ''weeks''] then Some 7
      else if w \<in> set [''month'', ''months''] then Some 30
      else None)"

fun duration_hint :: "string list \<Rightarrow> nat option" where
  \<comment> \<open>Modelled from the spec: the first explicit day, week or month count of the transcript\<close>
  "duration_hint (a # b # ws) =
     (case (parse_count a, unit_days b) of
        (Some k, Some u) \<Rightarrow> Some (k * u)
      | _ \<Rightarrow> duration_hint (b # ws))"
| "duration_hint ws = None"

fun team_hint :: "string list \<Rightarrow> nat option" where
  \<comment> \<open>Modelled from the spec: the first head count of the transcript\<close>
  "team_hint (a # b # ws) =
     (case parse_count a of
        Some k \<Rightarrow> if b \<in> set [''people'', ''person'', ''persons'', ''members'', ''developers'']
                  then Some k else team_hint (b # ws)
      | None \<Rightarrow> team_hint (b # ws))"
| "team_hint ws = None"

definition transcript_words :: "(string \<times> string) list \<Rightarrow> string list" where
  \<comment> \<open>Modelled from the spec: the words of the role-tagged messages, in order\<close>
  "transcript_words msgs = concat (map (\<lambda>(role, content). split_words content) msgs)"

definition phases :: "string list" where
  \<comment> \<open>Modelled from the spec: the catalog of generic project phases (section 4.5)\<close>
  "phases = [''Planning'', ''Design'', ''Development'', ''Testing'', ''Deployment'']"

definition default_total :: nat where
  \<comment> \<open>Modelled from the spec: the fixed total when no length is parseable (``e.g. 30 days'')\<close>
  "default_total = 30"

definition requested_total :: "nat option \<Rightarrow> nat option \<Rightarrow> nat" where
  \<comment> \<open>Modelled from the spec: the requested length, else the hint of the transcript, else 30 days\<close>
  "requested_total requested hint =
     (case requested of
        Some d \<Rightarrow> if 0 < d then d else default_total
      | None \<Rightarrow> (case hint of Some d \<Rightarrow> if 0 < d then d else default_total | None \<Rightarrow> default_total))"

definition fallback_tasks :: "nat \<Rightarrow> Task list" where
  \<comment> \<open>Modelled from the spec: section 4.5; a chain of phases whose durations add up to the total\<close>
  "fallback_tasks days =
     (let k = min (length phases) days in
      map (\<lambda>i. \<lparr>taskId = i,
                 taskName = phases ! i,
                 taskDescription = [],
                 durationDays = days div k + (if i < days mod k then 1 else 0),
                 dependsOn = (if i = 0 then [] else [i - 1]),
                 taskAssignee = [],
                 taskPriority = Medium,
                 taskStatus = Pending,
                 startDate = 0,
                 endDate = 0\<rparr>)
          [0..<k])"

definition fallback_roster :: "string list \<Rightarrow> nat option \<Rightarrow> string list" where
  \<comment> \<open>Modelled from the spec: without a roster, as many generic members as the transcript counts\<close>
  "fallback_roster roster hint =
     (if known_members roster \<noteq> [] then roster
      else (case hint of Some k \<Rightarrow> generic_roster k | None \<Rightarrow> []))"

subsection \<open>Plan Assembler and the engine\<close>

definition project_name :: "(string \<times> string) list \<Rightarrow> string" where
  \<comment> \<open>Modelled from the spec: the first thing the user said, else a generic name\<close>
  "project_name msgs =
     (case filter (\<lambda>(role, content). role = ''user'' \<and> \<not> is_blank content) msgs of
        [] \<Rightarrow> ''Project Plan''
      | (role, content) # rest \<Rightarrow> content)"

definition assemble :: "string \<Rightarrow> int \<Rightarrow> Task list \<Rightarrow> Plan" where
  \<comment> \<open>Modelled from the spec: section 4.6 and the Plan of section 3\<close>
  "assemble pname start ts =
     (let days = (if ts = [] then 0 else nat (Max (set (map endDate ts)) - start)) in
      \<lparr>projectName = pname,
       planStartDate = start,
       planTasks = ts,
       teamMembers = remdups (map taskAssignee ts),
       totalDurationDays = days,
       planEndDate = start + int days\<rparr>)"

definition plan_tasks :: "Task list \<Rightarrow> string list \<Rightarrow> int \<Rightarrow> Task list" where
  \<comment> \<open>Modelled from the spec: resolver, scheduler and balancer, in the order of section 2\<close>
  "plan_tasks ts roster start =
     (let scheduled = schedule start Map.empty (resolve ts)
      in balance (effective_roster roster scheduled) [] scheduled)"

definition generatePlan :: "request \<Rightarrow> Plan" where
  \<comment> \<open>Modelled from the spec: the pipeline of section 2, with the fallback of section 4.5\<close>
  "generatePlan req =
     (let ws = transcript_words (transcript req);
          normalized = (case upstream_result req of
                          Returned payload \<Rightarrow> normalize_tasks payload
                        | _ \<Rightarrow> []);
          ts = (if normalized \<noteq> [] then normalized
                else fallback_tasks (requested_total (request_totalDuration req) (duration_hint ws)));
          roster = (if normalized \<noteq> [] then request_roster req
                    else fallback_roster (request_roster req) (team_hint ws))
      in assemble (project_name (transcript req)) (request_startDate req)
           (plan_tasks ts roster (request_startDate req)))"

subsection \<open>Schedules and orders, as predicates\<close>

text \<open>
  The predicates from here on are not part of the engine: they state what its results
  are claimed to satisfy.
\<close>

fun ordered :: "nat set \<Rightarrow> (nat \<times> nat list) list \<Rightarrow> bool" where
  \<comment> \<open>every entry keeps only dependencies that were finished before it\<close>
  "ordered seen [] = True"
| "ordered seen ((u, kept) # rest) = (set kept \<subseteq> seen \<and> ordered (insert u seen) rest)"

fun topological :: "nat set \<Rightarrow> Task list \<Rightarrow> bool" where
  \<comment> \<open>a topological order: every task comes after all its prerequisites, and ids are not reused\<close>
  "topological seen [] = True"
| "topological seen (t # ts) =
     (set (dependsOn t) \<subseteq> seen \<and> taskId t \<notin> seen \<and> topological (insert (taskId t) seen) ts)"

definition depends :: "Task list \<Rightarrow> (nat \<times> nat) set" where
  \<comment> \<open>the dependency graph of a task list whose ids are its positions\<close>
  "depends ts = {(u, d). u < length ts \<and> d \<in> set (dependsOn (ts ! u))}"

definition depends_by_id :: "Task list \<Rightarrow> (nat \<times> nat) set" where
  \<comment> \<open>the dependency graph of any task list, by id\<close>
  "depends_by_id ts = {(u, d). \<exists>t\<in>set ts. taskId t = u \<and> d \<in> set (dependsOn t)}"

subsection \<open>Invariants of the traversal\<close>

definition graph_of :: "(nat \<Rightarrow> nat list) \<Rightarrow> (nat \<times> nat) set" where
  "graph_of g = {(u, d). d \<in> set (g u)}"

definition on_path :: "(nat \<Rightarrow> nat list) \<Rightarrow> nat list \<Rightarrow> nat list \<Rightarrow> bool" where
  \<comment> \<open>the tasks being visited depend, each through the next, on the current one,
     whose dependencies are being processed\<close>
  "on_path g visiting ds \<longleftrightarrow>
     visiting = [] \<or>
     (set ds \<subseteq> set (g (hd visiting)) \<and> (\<forall>s\<in>set visiting. (s, hd visiting) \<in> (graph_of g)\<^sup>*))"

definition entries_ok :: "nat \<Rightarrow> (nat \<Rightarrow> nat list) \<Rightarrow> (nat \<times> nat list) list \<Rightarrow> bool" where
  \<comment> \<open>a finished task keeps dependencies of its own, and a known dependency it dropped
     depends on the task in turn\<close>
  "entries_ok n g out \<longleftrightarrow>
     (\<forall>(u, kept)\<in>set out.
        u < n \<and> set kept \<subseteq> set (g u) \<and>
        (\<forall>d\<in>set (g u). d < n \<longrightarrow> d \<notin> set kept \<longrightarrow> (d, u) \<in> (graph_of g)\<^sup>*))"

definition well_formed :: "Task list \<Rightarrow> bool" where
  \<comment> \<open>what the normalizer and the fallback generator hand to the resolver: the id of a
     task is its position, and every dependency is the id of a task\<close>
  "well_formed ts \<longleftrightarrow>
     map taskId ts = [0..<length ts] \<and> (\<forall>t\<in>set ts. \<forall>d\<in>set (dependsOn t). d < length ts)"

subsection \<open>What the scheduler establishes for a task\<close>

definition scheduled_at :: "int \<Rightarrow> Task list \<Rightarrow> Task \<Rightarrow> bool" where
  "scheduled_at start ts t \<longleftrightarrow>
     endDate t = startDate t + int (durationDays t) \<and>
     start \<le> startDate t \<and>
     (dependsOn t = [] \<longrightarrow> startDate t = start) \<and>
     (dependsOn t \<noteq> [] \<longrightarrow>
        startDate t = Max (endDate ` {x \<in> set ts. taskId x \<in> set (dependsOn t)})) \<and>
     (\<forall>d\<in>set (dependsOn t). \<exists>x\<in>set ts. taskId x = d \<and> endDate x \<le> startDate t)"

subsection \<open>Sample requests\<close>

definition raw_item :: "string \<Rightarrow> int \<Rightarrow> int list \<Rightarrow> raw_task" where
  "raw_item nm d deps =
     \<lparr>raw_name = Some nm, raw_description = None, raw_duration = Some d, raw_dependsOn = deps,
      raw_assignee = None, raw_priority = None\<rparr>"

definition day_2024_01_01 :: int where
  \<comment> \<open>1 January 2024, in days since 1 January 1970\<close>
  "day_2024_01_01 = 19723"

definition design_build :: request where
  "design_build =
     \<lparr>upstream_result = Returned (TaskSequence [raw_item ''Design'' 5 [], raw_item ''Build'' 10 [0]]),
      request_startDate = day_2024_01_01,
      request_roster = [],
      request_totalDuration = None,
      transcript = []\<rparr>"


definition six_weeks :: request where
  "six_weeks =
     \<lparr>upstream_result = UpstreamTimedOut,
      request_startDate = day_2024_01_01,
      request_roster = [],
      request_totalDuration = None,
      transcript = [(''user'', ''a shop in 6 weeks with 3 people'')]\<rparr>"

definition cyclic_items :: "raw_task list" where
  "cyclic_items = [raw_item ''A'' 1 [2], raw_item ''B'' 1 [0], raw_item ''C'' 1 [1]]"

definition three_cycle :: "Task list" where
  \<comment> \<open>A before B before C before A: A depends on C, B on A, C on B\<close>
  "three_cycle = normalize_tasks (TaskSequence cyclic_items)"

definition cyclic_request :: request where
  "cyclic_request =
     \<lparr>upstream_result = Returned (TaskSequence cyclic_items),
      request_startDate = day_2024_01_01,
      request_roster = [''Ann'', ''Bob''],
      request_totalDuration = None,
      transcript = []\<rparr>"

section \<open>Properties of the timeline component\<close>

subsection \<open>The status toggle\<close>

lemma toggle_length: "length (toggleTaskStatus k ts) = length ts"
  by (simp add: toggleTaskStatus_def)

lemma toggle_nth:
  "i < length ts \<Longrightarrow> toggleTaskStatus k ts ! i =
     (if task_id (ts ! i) = k
      then (ts ! i)\<lparr>status := (if status (ts ! i) = ''completed'' then ''pending'' else ''completed'')\<rparr>
      else ts ! i)"
  by (simp add: toggleTaskStatus_def)

lemma toggle_nth_frame:
  "i < length ts \<Longrightarrow> (toggleTaskStatus k ts ! i)\<lparr>status := status (ts ! i)\<rparr> = ts ! i"
  by (simp add: toggle_nth)

lemma toggle_seq_length: "length (fold toggleTaskStatus ks ts) = length ts"
  by (induction ks arbitrary: ts) (simp_all add: toggle_length)

lemma toggle_seq_nth_frame:
  "i < length ts \<Longrightarrow> (fold toggleTaskStatus ks ts ! i)\<lparr>status := status (ts ! i)\<rparr> = ts ! i"
proof (induction ks arbitrary: ts)
  case Nil
  then show ?case by simp
next
  case (Cons k ks)
  let ?ts' = "toggleTaskStatus k ts"
  have len: "i < length ?ts'" using Cons.prems by (simp add: toggle_length)
  have "(fold toggleTaskStatus ks ?ts' ! i)\<lparr>status := status (?ts' ! i)\<rparr> = ?ts' ! i"
    using Cons.IH [OF len] .
  then have "(fold toggleTaskStatus ks ?ts' ! i)\<lparr>status := status (?ts' ! i)\<rparr>\<lparr>status := status (ts ! i)\<rparr>
               = (?ts' ! i)\<lparr>status := status (ts ! i)\<rparr>"
    by simp
  then show ?case using Cons.prems by (simp add: toggle_nth_frame)
qed

lemma frame_fields:
  fixes t t' :: "('i, 'z) task_scheme"
  assumes "t'\<lparr>status := s\<rparr> = t"
  shows "task_id t' = task_id t \<and> name t' = name t \<and> assignee t' = assignee t \<and>
         start_date t' = start_date t \<and> end_date t' = end_date t \<and>
         duration_days t' = duration_days t \<and> task.more t' = task.more t"
proof -
  have "task_id (t'\<lparr>status := s\<rparr>) = task_id t'" "name (t'\<lparr>status := s\<rparr>) = name t'"
    "assignee (t'\<lparr>status := s\<rparr>) = assignee t'" "start_date (t'\<lparr>status := s\<rparr>) = start_date t'"
    "end_date (t'\<lparr>status := s\<rparr>) = end_date t'" "duration_days (t'\<lparr>status := s\<rparr>) = duration_days t'"
    "task.more (t'\<lparr>status := s\<rparr>) = task.more t'"
    by simp_all
  then show ?thesis using assms by simp
qed

lemma toggle_seq_dates:
  "map start_date (fold toggleTaskStatus ks ts) = map start_date ts \<and>
   map end_date (fold toggleTaskStatus ks ts) = map end_date ts \<and>
   map duration_days (fold toggleTaskStatus ks ts) = map duration_days ts"
proof -
  have "\<forall>i<length ts. start_date (fold toggleTaskStatus ks ts ! i) = start_date (ts ! i) \<and>
        end_date (fold toggleTaskStatus ks ts ! i) = end_date (ts ! i) \<and>
        duration_days (fold toggleTaskStatus ks ts ! i) = duration_days (ts ! i)"
    using toggle_seq_nth_frame [of _ ts ks] frame_fields by blast
  then show ?thesis
    by (simp add: list_eq_iff_nth_eq toggle_seq_length)
qed

lemma toggle_changes_unique:
  assumes d: "distinct (map task_id ts)" and i: "i < length ts" and j: "j < length ts"
    and ci: "toggleTaskStatus k ts ! i \<noteq> ts ! i" and cj: "toggleTaskStatus k ts ! j \<noteq> ts ! j"
  shows "i = j"
proof -
  have "task_id (ts ! i) = k" using ci i by (simp add: toggle_nth split: if_splits)
  moreover have "task_id (ts ! j) = k" using cj j by (simp add: toggle_nth split: if_splits)
  ultimately have "map task_id ts ! i = map task_id ts ! j" using i j by simp
  moreover have "i < length (map task_id ts)" "j < length (map task_id ts)" using i j by simp_all
  ultimately show ?thesis using d nth_eq_iff_index_eq by blast
qed

text \<open>
  Claim C3. Toggling by id keeps the length of the list, leaves every task with another id
  exactly as it was, and changes no field but \<open>status\<close> in any task (the extension
  part of the record stands for the fields the component never reads). When the ids
  are distinct, at most one position changes. The same frame holds after any sequence
  of toggles: in particular the start dates, end dates and durations stay the same.
\<close>
theorem toggleTaskStatus_frame:
  fixes ts :: "('i, 'z) task_scheme list"
  shows "length (toggleTaskStatus k ts) = length ts \<and>
    (\<forall>i<length ts. task_id (ts ! i) \<noteq> k \<longrightarrow> toggleTaskStatus k ts ! i = ts ! i) \<and>
    (\<forall>i<length ts. (toggleTaskStatus k ts ! i)\<lparr>status := status (ts ! i)\<rparr> = ts ! i) \<and>
    (distinct (map task_id ts) \<longrightarrow>
       (\<forall>i<length ts. \<forall>j<length ts.
          toggleTaskStatus k ts ! i \<noteq> ts ! i \<longrightarrow> toggleTaskStatus k ts ! j \<noteq> ts ! j \<longrightarrow> i = j)) \<and>
    (\<forall>ks. length (fold toggleTaskStatus ks ts) = length ts \<and>
       (\<forall>i<length ts. (fold toggleTaskStatus ks ts ! i)\<lparr>status := status (ts ! i)\<rparr> = ts ! i) \<and>
       map start_date (fold toggleTaskStatus ks ts) = map start_date ts \<and>
       map end_date (fold toggleTaskStatus ks ts) = map end_date ts \<and>
       map duration_days (fold toggleTaskStatus ks ts) = map duration_days ts)"
  using toggle_changes_unique [of ts _ _ k]
  by (simp add: toggle_length toggle_nth toggle_seq_length toggle_seq_nth_frame toggle_seq_dates)

theorem toggleTaskStatus_frame_witness:
  "(1::nat) < length [pending_task, done_task] \<and> task_id ([pending_task, done_task] ! 1) \<noteq> 1 \<and>
   distinct (map task_id [pending_task, done_task]) \<and>
   toggleTaskStatus 1 [pending_task, done_task] ! 1 = [pending_task, done_task] ! 1 \<and>
   map end_date (fold toggleTaskStatus [1, 2, 1] [pending_task, done_task]) = map end_date [pending_task, done_task]"
proof -
  have h1: "(1::nat) < length [pending_task, done_task]" by simp
  have h2: "task_id ([pending_task, done_task] ! 1) \<noteq> 1" by (simp add: done_task_def)
  have h3: "distinct (map task_id [pending_task, done_task])"
    by (simp add: pending_task_def done_task_def)
  note th = toggleTaskStatus_frame [of 1 "[pending_task, done_task]"]
  have a: "toggleTaskStatus 1 [pending_task, done_task] ! 1 = [pending_task, done_task] ! 1"
    using th [THEN conjunct2, THEN conjunct1, rule_format, OF h1 h2] .
  have b: "map end_date (fold toggleTaskStatus [1, 2, 1] [pending_task, done_task]) = map end_date [pending_task, done_task]"
    using th [THEN conjunct2, THEN conjunct2, THEN conjunct2, THEN conjunct2, rule_format, of "[1, 2, 1]"]
    by blast
  from h1 h2 h3 a b show ?thesis by blast
qed

lemma toggle_absent: "k \<notin> task_id ` set ts \<Longrightarrow> toggleTaskStatus k ts = ts"
  unfolding toggleTaskStatus_def by (rule map_idI) auto

lemma toggle_twice:
  assumes "\<forall>t\<in>set ts. task_id t = k \<longrightarrow> status t = ''pending'' \<or> status t = ''completed''"
  shows "toggleTaskStatus k (toggleTaskStatus k ts) = ts"
proof -
  have "toggleTaskStatus k (toggleTaskStatus k ts) ! i = ts ! i" if "i < length ts" for i
  proof (cases "task_id (ts ! i) = k")
    case True
    then have "status (ts ! i) = ''pending'' \<or> status (ts ! i) = ''completed''"
      using assms that by simp
    then show ?thesis using that True by (auto simp: toggle_nth toggle_length)
  next
    case False
    then show ?thesis using that by (simp add: toggle_nth toggle_length)
  qed
  then show ?thesis by (simp add: list_eq_iff_nth_eq toggle_length)
qed

lemma toggle_even:
  assumes "\<forall>t\<in>set ts. task_id t = k \<longrightarrow> status t = ''pending'' \<or> status t = ''completed''"
  shows "(toggleTaskStatus k ^^ (2 * n)) ts = ts"
proof (induction n)
  case 0
  then show ?case by simp
next
  case (Suc n)
  have "(toggleTaskStatus k ^^ (2 * Suc n)) ts
          = (toggleTaskStatus k ^^ (2 * n)) (toggleTaskStatus k (toggleTaskStatus k ts))"
    by (simp add: funpow_swap1)
  then show ?case using Suc toggle_twice [OF assms] by simp
qed

lemma toggle_funpow_fold: "(toggleTaskStatus k ^^ m) ts = fold toggleTaskStatus (replicate m k) ts"
  by (induction m arbitrary: ts) (simp_all add: funpow_swap1)

lemma toggle_funpow_dates:
  "map start_date ((toggleTaskStatus k ^^ m) ts) = map start_date ts \<and>
   map end_date ((toggleTaskStatus k ^^ m) ts) = map end_date ts \<and>
   map duration_days ((toggleTaskStatus k ^^ m) ts) = map duration_days ts"
  unfolding toggle_funpow_fold by (rule toggle_seq_dates)

lemma toggle_twice_completed:
  "i < length ts \<Longrightarrow>
   (status (toggleTaskStatus k (toggleTaskStatus k ts) ! i) = ''completed'')
     = (status (ts ! i) = ''completed'')"
  by (simp add: toggle_nth toggle_length)

lemma toggle_even_completed:
  "i < length ts \<Longrightarrow>
   (status ((toggleTaskStatus k ^^ (2 * n)) ts ! i) = ''completed'') = (status (ts ! i) = ''completed'')"
proof (induction n arbitrary: ts)
  case 0
  then show ?case by simp
next
  case (Suc n)
  let ?ts' = "toggleTaskStatus k (toggleTaskStatus k ts)"
  have len: "i < length ?ts'" using Suc.prems by (simp add: toggle_length)
  have "(toggleTaskStatus k ^^ (2 * Suc n)) ts = (toggleTaskStatus k ^^ (2 * n)) ?ts'"
    by (simp add: funpow_swap1)
  then show ?case using Suc.IH [OF len] toggle_twice_completed [OF Suc.prems] by simp
qed

text \<open>
  Claim C6, as stated, fails: the toggle reads a status as completed or not completed
  and writes \<open>pending\<close> or \<open>completed\<close>, so a status that is neither is not
  restored. A task whose status is \<open>in_progress\<close> is \<open>completed\<close> after one toggle
  and \<open>pending\<close> after two.
\<close>
theorem toggle_even_in_progress_counterexample:
  "task_id in_progress_task = 4 \<and>
   status ([in_progress_task] ! 0) = ''in_progress'' \<and>
   status (toggleTaskStatus 4 [in_progress_task] ! 0) = ''completed'' \<and>
   status ((toggleTaskStatus 4 ^^ 2) [in_progress_task] ! 0) = ''pending'' \<and>
   status ((toggleTaskStatus 4 ^^ 2) [in_progress_task] ! 0) \<noteq> status ([in_progress_task] ! 0)"
  by (simp add: toggleTaskStatus_def in_progress_task_def numeral_2_eq_2)

text \<open>
  Claim C6, amended. When the targeted tasks have one of the two statuses of the data
  model, \<open>pending\<close> or \<open>completed\<close>, the task list after an even number of toggles
  of the same id is the one of the start, so every status is restored. Whatever the
  statuses are, after an even number of toggles every task is completed exactly if it
  was completed at the start, and no field but \<open>status\<close> differs from the start;
  after any number of toggles the dates and durations are those of the start.
\<close>
theorem toggleTaskStatus_even_restores:
  fixes ts :: "('i, 'z) task_scheme list"
  shows "((\<forall>t\<in>set ts. task_id t = k \<longrightarrow> status t = ''pending'' \<or> status t = ''completed'') \<longrightarrow>
       (toggleTaskStatus k ^^ (2 * n)) ts = ts) \<and>
    length ((toggleTaskStatus k ^^ (2 * n)) ts) = length ts \<and>
    (\<forall>i<length ts.
       (status ((toggleTaskStatus k ^^ (2 * n)) ts ! i) = ''completed'') = (status (ts ! i) = ''completed'') \<and>
       ((toggleTaskStatus k ^^ (2 * n)) ts ! i)\<lparr>status := status (ts ! i)\<rparr> = ts ! i) \<and>
    (\<forall>m. map start_date ((toggleTaskStatus k ^^ m) ts) = map start_date ts \<and>
         map end_date ((toggleTaskStatus k ^^ m) ts) = map end_date ts \<and>
         map duration_days ((toggleTaskStatus k ^^ m) ts) = map duration_days ts)"
proof (intro conjI allI impI)
  assume "\<forall>t\<in>set ts. task_id t = k \<longrightarrow> status t = ''pending'' \<or> status t = ''completed''"
  then show "(toggleTaskStatus k ^^ (2 * n)) ts = ts" by (rule toggle_even)
next
  show "length ((toggleTaskStatus k ^^ (2 * n)) ts) = length ts"
    by (simp only: toggle_funpow_fold toggle_seq_length)
next
  fix i assume "i < length ts"
  then show "(status ((toggleTaskStatus k ^^ (2 * n)) ts ! i) = ''completed'') = (status (ts ! i) = ''completed'')"
    by (rule toggle_even_completed)
next
  fix i assume "i < length ts"
  then show "((toggleTaskStatus k ^^ (2 * n)) ts ! i)\<lparr>status := status (ts ! i)\<rparr> = ts ! i"
    by (simp only: toggle_funpow_fold toggle_seq_nth_frame)
qed (simp_all only: toggle_funpow_dates)

theorem toggleTaskStatus_even_restores_witness:
  "task_id pending_task = 1 \<and> status pending_task = ''pending'' \<and> task_id done_task \<noteq> 1 \<and>
   (toggleTaskStatus 1 ^^ (2 * 2)) [pending_task, done_task] = [pending_task, done_task] \<and>
   (0::nat) < length [pending_task, done_task] \<and>
   (status ((toggleTaskStatus 1 ^^ (2 * 2)) [pending_task, done_task] ! 0) = ''completed'')
     = (status ([pending_task, done_task] ! 0) = ''completed'') \<and>
   map start_date ((toggleTaskStatus 1 ^^ 3) [pending_task, done_task]) = map start_date [pending_task, done_task]"
proof -
  have h: "\<forall>t\<in>set [pending_task, done_task]. task_id t = 1 \<longrightarrow> status t = ''pending'' \<or> status t = ''completed''"
    by (simp add: pending_task_def done_task_def)
  have l: "(0::nat) < length [pending_task, done_task]" by simp
  note th = toggleTaskStatus_even_restores [of "[pending_task, done_task]" 1 2]
  have e: "task_id pending_task = 1 \<and> status pending_task = ''pending'' \<and> task_id done_task \<noteq> 1"
    by (simp add: pending_task_def done_task_def)
  have a: "(toggleTaskStatus 1 ^^ (2 * 2)) [pending_task, done_task] = [pending_task, done_task]"
    using th [THEN conjunct1] h by blast
  have b: "(status ((toggleTaskStatus 1 ^^ (2 * 2)) [pending_task, done_task] ! 0) = ''completed'')
     = (status ([pending_task, done_task] ! 0) = ''completed'')"
    using th [THEN conjunct2, THEN conjunct2, THEN conjunct1, rule_format, OF l] by blast
  have c: "map start_date ((toggleTaskStatus 1 ^^ 3) [pending_task, done_task]) = map start_date [pending_task, done_task]"
    using th [THEN conjunct2, THEN conjunct2, THEN conjunct2, rule_format, of 3] by blast
  from e a l b c show ?thesis by blast
qed

text \<open>
  Claim C9. Toggling an id that no task has returns the list unchanged. The function is
  total: there is no error branch.
\<close>
theorem toggleTaskStatus_absent_id:
  "k \<notin> task_id ` set ts \<Longrightarrow> toggleTaskStatus k ts = ts"
  by (rule toggle_absent)

theorem toggleTaskStatus_absent_id_witness:
  "(7::nat) \<notin> task_id ` set [pending_task, done_task] \<and>
   toggleTaskStatus 7 [pending_task, done_task] = [pending_task, done_task]"
proof -
  have h: "(7::nat) \<notin> task_id ` set [pending_task, done_task]"
    by (simp add: pending_task_def done_task_def)
  from toggleTaskStatus_absent_id [OF h] h show ?thesis by simp
qed

text \<open>
  Claim C5, as stated, fails: the toggle has no direction argument, and a second call
  with the same id undoes the first one. Starting from a pending task, one toggle
  gives \<open>completed\<close> and two toggles give \<open>pending\<close>.
\<close>
theorem toggle_twice_not_idempotent_counterexample:
  "status (toggleTaskStatus 1 (toggleTaskStatus 1 [pending_task]) ! 0) = ''pending'' \<and>
   status (toggleTaskStatus 1 [pending_task] ! 0) = ''completed'' \<and>
   toggleTaskStatus 1 (toggleTaskStatus 1 [pending_task]) \<noteq> toggleTaskStatus 1 [pending_task]"
  by (simp add: toggleTaskStatus_def pending_task_def)

text \<open>
  Claim C5, amended. For a task list and an id that occurs in it, two toggles never
  give the result of one toggle: after one toggle the status of each targeted task is
  \<open>pending\<close> if it was \<open>completed\<close> and \<open>completed\<close> otherwise, after two toggles
  it is \<open>completed\<close> if it was \<open>completed\<close> and \<open>pending\<close> otherwise. Only the
  status field changes: dates, durations and all other fields are those of the start.
\<close>
theorem toggleTaskStatus_twice_flips_back:
  fixes ts :: "('i, 'z) task_scheme list"
  assumes "k \<in> task_id ` set ts"
  shows "toggleTaskStatus k (toggleTaskStatus k ts) \<noteq> toggleTaskStatus k ts \<and>
    (\<forall>i<length ts. task_id (ts ! i) = k \<longrightarrow>
       status (toggleTaskStatus k ts ! i) = (if status (ts ! i) = ''completed'' then ''pending'' else ''completed'') \<and>
       status (toggleTaskStatus k (toggleTaskStatus k ts) ! i)
         = (if status (ts ! i) = ''completed'' then ''completed'' else ''pending'')) \<and>
    (\<forall>i<length ts. (toggleTaskStatus k (toggleTaskStatus k ts) ! i)\<lparr>status := status (ts ! i)\<rparr> = ts ! i) \<and>
    map start_date (toggleTaskStatus k (toggleTaskStatus k ts)) = map start_date ts \<and>
    map end_date (toggleTaskStatus k (toggleTaskStatus k ts)) = map end_date ts \<and>
    map duration_days (toggleTaskStatus k (toggleTaskStatus k ts)) = map duration_days ts"
proof -
  from assms obtain i where i: "i < length ts" "task_id (ts ! i) = k"
    by (auto simp: in_set_conv_nth)
  have "status (toggleTaskStatus k (toggleTaskStatus k ts) ! i) \<noteq> status (toggleTaskStatus k ts ! i)"
    using i by (simp add: toggle_nth toggle_length)
  then have ne: "toggleTaskStatus k (toggleTaskStatus k ts) \<noteq> toggleTaskStatus k ts" by auto
  have two: "toggleTaskStatus k (toggleTaskStatus k ts) = fold toggleTaskStatus [k, k] ts" by simp
  show ?thesis
    using ne toggle_seq_dates [of "[k, k]" ts] toggle_seq_nth_frame [of _ ts "[k, k]"]
    by (simp add: toggle_nth toggle_length)
qed

theorem toggleTaskStatus_twice_flips_back_witness:
  "(1::nat) \<in> task_id ` set [pending_task, done_task] \<and>
   toggleTaskStatus 1 (toggleTaskStatus 1 [pending_task, done_task]) \<noteq> toggleTaskStatus 1 [pending_task, done_task] \<and>
   status (toggleTaskStatus 1 (toggleTaskStatus 1 [pending_task, done_task]) ! 0) = ''pending''"
proof -
  have h: "(1::nat) \<in> task_id ` set [pending_task, done_task]"
    by (simp add: pending_task_def done_task_def)
  from toggleTaskStatus_twice_flips_back [OF h] h show ?thesis
    by (simp add: pending_task_def done_task_def)
qed

subsection \<open>Rounding to binary64\<close>

lemma binade_bounds:
  assumes "0 < x"
  shows "2 powi (binade x) \<le> x" and "x < 2 powi (binade x + 1)"
proof -
  obtain a b where q: "quotient_of x = (a, b)" by (cases "quotient_of x")
  have b: "0 < b" using quotient_of_denom_pos [OF q] .
  have x: "x = of_int a / of_int b" using quotient_of_div [OF q] .
  have a: "0 < a" using assms b by (simp add: x zero_less_divide_iff)
  define la where "la = bitlen a"
  define lb where "lb = bitlen b"
  have la: "1 \<le> la" using a bitlen_eq_zero_iff [of a] bitlen_nonneg [of a] by (simp add: la_def)
  have lb: "1 \<le> lb" using b bitlen_eq_zero_iff [of b] bitlen_nonneg [of b] by (simp add: lb_def)
  have ba: "2 ^ nat (la - 1) \<le> a" "a < 2 ^ nat la" using bitlen_bounds [OF a] by (simp_all add: la_def)
  have bb: "2 ^ nat (lb - 1) \<le> b" "b < 2 ^ nat lb" using bitlen_bounds [OF b] by (simp_all add: lb_def)
  have ra: "(2::rat) powi (la - 1) \<le> of_int a" "(of_int a :: rat) < 2 powi la"
  proof -
    have "(of_int (2 ^ nat (la - 1)) :: rat) \<le> of_int a" using ba(1) by (simp only: of_int_le_iff)
    then show "(2::rat) powi (la - 1) \<le> of_int a" using la by (simp add: power_int_nonneg_exp)
    have "(of_int a :: rat) < of_int (2 ^ nat la)" using ba(2) by (simp only: of_int_less_iff)
    then show "(of_int a :: rat) < 2 powi la" using la by (simp add: power_int_nonneg_exp)
  qed
  have rb: "(2::rat) powi (lb - 1) \<le> of_int b" "(of_int b :: rat) < 2 powi lb"
  proof -
    have "(of_int (2 ^ nat (lb - 1)) :: rat) \<le> of_int b" using bb(1) by (simp only: of_int_le_iff)
    then show "(2::rat) powi (lb - 1) \<le> of_int b" using lb by (simp add: power_int_nonneg_exp)
    have "(of_int b :: rat) < of_int (2 ^ nat lb)" using bb(2) by (simp only: of_int_less_iff)
    then show "(of_int b :: rat) < 2 powi lb" using lb by (simp add: power_int_nonneg_exp)
  qed
  have bpos: "(0::rat) < of_int b" using b by simp
  have apos: "(0::rat) < of_int a" using a by simp
  have upper: "x < 2 powi (la - lb + 1)"
  proof -
    have "of_int a * (2::rat) powi (lb - 1) < 2 powi la * of_int b"
      using ra(2) rb(1) apos bpos by (intro mult_less_le_imp_less) simp_all
    then have "x * 2 powi (lb - 1) < 2 powi la"
      using bpos by (simp add: x field_simps)
    then have "x < 2 powi la / 2 powi (lb - 1)"
      by (simp add: pos_less_divide_eq)
    also have "(2::rat) powi la / 2 powi (lb - 1) = 2 powi (la - (lb - 1))"
      by (simp add: power_int_diff)
    finally show ?thesis by (simp add: algebra_simps)
  qed
  have lower: "2 powi (la - lb - 1) \<le> x"
  proof -
    have "(2::rat) powi (la - 1) * of_int b \<le> of_int a * 2 powi lb"
      using ra(1) rb(2) apos bpos by (intro mult_mono) simp_all
    then have "2 powi (la - 1) / 2 powi lb \<le> x"
      using bpos by (simp add: x field_simps)
    moreover have "(2::rat) powi (la - 1) / 2 powi lb = 2 powi (la - 1 - lb)"
      by (simp add: power_int_diff)
    ultimately show ?thesis by (simp add: algebra_simps)
  qed
  have bin: "binade x = (if 2 powi (la - lb) \<le> x then la - lb else la - lb - 1)"
    by (simp add: binade_def q Let_def la_def lb_def)
  show "2 powi (binade x) \<le> x" using lower by (simp add: bin)
  show "x < 2 powi (binade x + 1)" using upper by (auto simp: bin not_le)
qed

lemma binade_mono:
  assumes "0 < x" and "x \<le> y"
  shows "binade x \<le> binade y"
proof -
  have "(2::rat) powi binade x \<le> x" using binade_bounds(1) [OF assms(1)] .
  also have "x \<le> y" by (rule assms(2))
  also have "y < 2 powi (binade y + 1)" using binade_bounds(2) [of y] assms by simp
  finally have "(2::rat) powi binade x < 2 powi (binade y + 1)" .
  then have lt: "(2::rat) powi binade x < 2 powi (binade y + 1)" .
  show ?thesis
  proof (rule ccontr)
    assume "\<not> binade x \<le> binade y"
    then have "binade y + 1 \<le> binade x" by simp
    then have "(2::rat) powi (binade y + 1) \<le> 2 powi binade x"
      by (intro power_int_increasing) simp_all
    then show False using lt by simp
  qed
qed

lemma round_half_even_bounds: "\<lfloor>q\<rfloor> \<le> round_half_even q" "round_half_even q \<le> \<lfloor>q\<rfloor> + 1"
  by (simp_all add: round_half_even_def Let_def)

lemma round_half_even_int [simp]: "round_half_even (of_int k) = k"
  by (simp add: round_half_even_def)

lemma round_half_even_mono:
  assumes "x \<le> y"
  shows "round_half_even x \<le> round_half_even y"
proof (cases "\<lfloor>x\<rfloor> = \<lfloor>y\<rfloor>")
  case False
  then have "\<lfloor>x\<rfloor> < \<lfloor>y\<rfloor>" using floor_mono [OF assms] by simp
  then show ?thesis
    using round_half_even_bounds(2) [of x] round_half_even_bounds(1) [of y] by linarith
next
  case True
  then have "x - of_int \<lfloor>x\<rfloor> \<le> y - of_int \<lfloor>y\<rfloor>" using assms by simp
  then show ?thesis using True by (auto simp: round_half_even_def Let_def)
qed

lemma to_double_pos:
  assumes "0 < x"
  shows "to_double x = of_int (round_half_even (x / 2 powi (binade x - 52))) * 2 powi (binade x - 52)"
  using assms by (simp add: to_double_def Let_def)

lemma to_double_range:
  assumes "0 < x"
  shows "2 powi binade x \<le> to_double x" and "to_double x \<le> 2 powi (binade x + 1)"
proof -
  define e where "e = binade x"
  define q :: rat where "q = 2 powi (e - 52)"
  have q: "0 < q" by (simp add: q_def)
  have lo: "2 powi e \<le> x" and hi: "x < 2 powi (e + 1)"
    using binade_bounds [OF assms] by (simp_all add: e_def)
  have e1: "(2::rat) powi e = of_int (2 ^ 52) * q"
    by (simp add: q_def power_int_diff)
  have e2: "(2::rat) powi (e + 1) = of_int (2 ^ 53) * q"
    by (simp add: q_def power_int_diff power_int_add)
  have "of_int (2 ^ 52) \<le> x / q" using lo q by (simp add: e1 pos_le_divide_eq)
  then have "round_half_even (of_int (2 ^ 52)) \<le> round_half_even (x / q)"
    by (rule round_half_even_mono)
  then have a: "2 ^ 52 \<le> round_half_even (x / q)" by (simp only: round_half_even_int)
  have "x / q \<le> of_int (2 ^ 53)" using hi q by (simp add: e2 pos_divide_le_eq)
  then have "round_half_even (x / q) \<le> round_half_even (of_int (2 ^ 53))"
    by (rule round_half_even_mono)
  then have b: "round_half_even (x / q) \<le> 2 ^ 53" by (simp only: round_half_even_int)
  have td: "to_double x = of_int (round_half_even (x / q)) * q"
    using to_double_pos [OF assms] by (simp add: q_def e_def)
  have "(of_int (2 ^ 52) :: rat) \<le> of_int (round_half_even (x / q))" using a by (simp only: of_int_le_iff)
  then have "of_int (2 ^ 52) * q \<le> to_double x" using q by (simp only: td mult_le_cancel_right) simp
  then show "2 powi binade x \<le> to_double x" by (simp only: e1 [symmetric] e_def)
  have "(of_int (round_half_even (x / q)) :: rat) \<le> of_int (2 ^ 53)" using b by (simp only: of_int_le_iff)
  then have "to_double x \<le> of_int (2 ^ 53) * q" using q by (simp only: td mult_le_cancel_right) simp
  then show "to_double x \<le> 2 powi (binade x + 1)" by (simp only: e2 [symmetric] e_def)
qed

lemma to_double_nonneg: "0 \<le> x \<Longrightarrow> 0 \<le> to_double x"
proof (cases "x = 0")
  case True
  then show ?thesis by (simp add: to_double_def)
next
  case False
  assume "0 \<le> x"
  then have x: "0 < x" using False by simp
  have "(0::rat) \<le> 2 powi binade x" by simp
  then show ?thesis using to_double_range(1) [OF x] by linarith
qed

lemma to_double_mono:
  assumes "0 \<le> x" and "x \<le> y"
  shows "to_double x \<le> to_double y"
proof (cases "x = 0")
  case True
  have "0 \<le> y" using assms by simp
  then show ?thesis using True to_double_nonneg [of y] by (simp add: to_double_def)
next
  case False
  then have x: "0 < x" using assms(1) by simp
  then have y: "0 < y" using assms(2) by simp
  have le: "binade x \<le> binade y" by (rule binade_mono [OF x assms(2)])
  show ?thesis
  proof (cases "binade x = binade y")
    case True
    define q :: rat where "q = 2 powi (binade y - 52)"
    have q: "0 < q" by (simp add: q_def)
    have "x / q \<le> y / q" using assms(2) q by (simp add: divide_right_mono)
    then have "round_half_even (x / q) \<le> round_half_even (y / q)" by (rule round_half_even_mono)
    then have "(of_int (round_half_even (x / q)) :: rat) \<le> of_int (round_half_even (y / q))"
      by (simp only: of_int_le_iff)
    then have "of_int (round_half_even (x / q)) * q \<le> of_int (round_half_even (y / q)) * q"
      using q by (simp only: mult_le_cancel_right) simp
    then show ?thesis by (simp only: to_double_pos [OF x] to_double_pos [OF y] True q_def)
  next
    case False
    then have "binade x + 1 \<le> binade y" using le by simp
    then have "(2::rat) powi (binade x + 1) \<le> 2 powi binade y"
      by (intro power_int_increasing) simp_all
    then show ?thesis using to_double_range(2) [OF x] to_double_range(1) [OF y] by linarith
  qed
qed

lemma percent_mono:
  assumes "0 \<le> x" and "x \<le> y"
  shows "to_double (to_double x * 100) \<le> to_double (to_double y * 100)"
proof -
  have a: "to_double x \<le> to_double y" by (rule to_double_mono [OF assms])
  have b: "0 \<le> to_double x" by (rule to_double_nonneg [OF assms(1)])
  have "0 \<le> to_double x * 100" using b by simp
  moreover have "to_double x * 100 \<le> to_double y * 100" using a by simp
  ultimately show ?thesis by (rule to_double_mono)
qed

lemma js_ge_round:
  assumes "0 < n"
  shows "js_ge (Math_round (js_times (js_div c n) 100)) (of_nat p)
           \<longleftrightarrow> of_nat p - 1 / 2 \<le> to_double (to_double (of_nat c / of_nat n) * 100)"
proof -
  define w where "w = to_double (to_double (of_nat c / of_nat n) * 100)"
  have "js_ge (Math_round (js_times (js_div c n) 100)) (of_nat p)
          \<longleftrightarrow> (of_int (int p) :: rat) \<le> of_int \<lfloor>w + 1 / 2\<rfloor>"
    using assms by (simp add: js_div_def w_def)
  also have "\<dots> \<longleftrightarrow> (of_int (int p) :: rat) \<le> w + 1 / 2"
    by (simp only: of_int_le_iff le_floor_iff)
  also have "\<dots> \<longleftrightarrow> of_nat p - 1 / 2 \<le> w" by auto
  finally show ?thesis by (simp only: w_def)
qed

lemma js_ge_threshold:
  fixes k p c n :: nat
  assumes n: "0 < n" "n < 2 ^ 32"
    and k: "0 < k"
    and hi: "of_nat p - 1 / 2 \<le> to_double (to_double (of_nat k / 200) * 100)"
    and lo: "to_double (to_double (of_nat k / 200 - 1 / 2 ^ 40) * 100) < of_nat p - 1 / 2"
  shows "js_ge (Math_round (js_times (js_div c n) 100)) (of_nat p) \<longleftrightarrow> k * n \<le> 200 * c"
proof -
  define x :: rat where "x = of_nat c / of_nat n"
  have n0: "(0::rat) < of_nat n" using n(1) by simp
  have x0: "0 \<le> x" by (simp add: x_def)
  show ?thesis
  proof (cases "k * n \<le> 200 * c")
    case True
    then have "(of_nat (k * n) :: rat) \<le> of_nat (200 * c)" by (simp only: of_nat_le_iff)
    then have "(of_nat k :: rat) * of_nat n \<le> 200 * of_nat c" by simp
    then have "(of_nat k :: rat) / 200 \<le> x" using n0 by (simp add: x_def field_simps)
    moreover have "(0::rat) \<le> of_nat k / 200" by simp
    ultimately have "to_double (to_double (of_nat k / 200) * 100) \<le> to_double (to_double x * 100)"
      by (intro percent_mono)
    then have "of_nat p - 1 / 2 \<le> to_double (to_double x * 100)" using hi by linarith
    then show ?thesis using True by (simp only: js_ge_round [OF n(1)] x_def)
  next
    case False
    then have "200 * c + 1 \<le> k * n" by simp
    then have "(of_nat (200 * c + 1) :: rat) \<le> of_nat (k * n)" by (simp only: of_nat_le_iff)
    then have le: "200 * of_nat c + 1 \<le> (of_nat k :: rat) * of_nat n" by simp
    have "200 * n \<le> 2 ^ 40" using n(2) by simp
    then have "(of_nat (200 * n) :: rat) \<le> of_nat (2 ^ 40)" by (simp only: of_nat_le_iff)
    then have small: "200 * (of_nat n :: rat) \<le> 2 ^ 40" by simp
    have "x = (200 * of_nat c) / (200 * of_nat n)" by (simp add: x_def)
    also have "\<dots> \<le> (of_nat k * of_nat n - 1) / (200 * of_nat n)"
      using le n0 by (intro divide_right_mono) simp_all
    also have "\<dots> = of_nat k / 200 - 1 / (200 * of_nat n)"
      using n0 by (simp add: field_simps)
    also have "\<dots> \<le> of_nat k / 200 - 1 / 2 ^ 40"
    proof -
      have "(1::rat) / 2 ^ 40 \<le> 1 / (200 * of_nat n)"
        using small n0 by (intro divide_left_mono) simp_all
      then show ?thesis by linarith
    qed
    finally have "x \<le> of_nat k / 200 - 1 / 2 ^ 40" .
    with x0 have "to_double (to_double x * 100) \<le> to_double (to_double (of_nat k / 200 - 1 / 2 ^ 40) * 100)"
      by (rule percent_mono)
    then have "\<not> of_nat p - 1 / 2 \<le> to_double (to_double x * 100)" using lo by linarith
    then show ?thesis using False by (simp only: js_ge_round [OF n(1)] x_def)
  qed
qed

lemma boundary_25:
  "(25::rat) - 1 / 2 \<le> to_double (to_double (49 / 200) * 100) \<and>
   to_double (to_double (49 / 200 - 1 / 2 ^ 40) * 100) < 25 - 1 / 2"
  by code_simp

lemma boundary_50:
  "(50::rat) - 1 / 2 \<le> to_double (to_double (99 / 200) * 100) \<and>
   to_double (to_double (99 / 200 - 1 / 2 ^ 40) * 100) < 50 - 1 / 2"
  by code_simp

lemma boundary_75:
  "(75::rat) - 1 / 2 \<le> to_double (to_double (149 / 200) * 100) \<and>
   to_double (to_double (149 / 200 - 1 / 2 ^ 40) * 100) < 75 - 1 / 2"
  by code_simp

lemma boundary_100:
  "(100::rat) - 1 / 2 \<le> to_double (to_double (199 / 200) * 100) \<and>
   to_double (to_double (199 / 200 - 1 / 2 ^ 40) * 100) < 100 - 1 / 2"
  by code_simp

subsection \<open>Progress and milestones\<close>

lemma completedTasks_status:
  "completedTasks ts = length (filter (\<lambda>s. s = ''completed'') (map status ts))"
  by (simp add: completedTasks_def filter_map comp_def)

lemma overallProgress_status:
  assumes "map status ts' = map status ts"
  shows "overallProgress ts' = overallProgress ts"
proof -
  have "length ts' = length ts" using assms by (metis length_map)
  then show ?thesis using assms by (simp add: overallProgress_def completedTasks_status)
qed

text \<open>
  Claim C8. With no tasks, the division is 0/0 and gives NaN, the overall progress is
  NaN, every comparison with a threshold is false, and only the first milestone, whose
  flag is the constant true, is marked completed.
\<close>
theorem empty_tasks_progress:
  "js_div (completedTasks ([] :: ('i, 'z) task_scheme list)) (length ([] :: ('i, 'z) task_scheme list)) = NaN \<and>
   overallProgress ([] :: ('i, 'z) task_scheme list) = NaN \<and>
   map completed (milestones ([] :: ('i, 'z) task_scheme list)) = [True, False, False, False, False] \<and>
   map percentage (milestones ([] :: ('i, 'z) task_scheme list)) = [0, 25, 50, 75, 100]"
  by (simp add: milestones_def overallProgress_def completedTasks_def js_div_def)

lemma js_ge_thresholds:
  assumes "0 < n" and "n < 2 ^ 32"
  shows "js_ge (Math_round (js_times (js_div c n) 100)) 25 \<longleftrightarrow> 49 * n \<le> 200 * c"
    and "js_ge (Math_round (js_times (js_div c n) 100)) 50 \<longleftrightarrow> 99 * n \<le> 200 * c"
    and "js_ge (Math_round (js_times (js_div c n) 100)) 75 \<longleftrightarrow> 149 * n \<le> 200 * c"
    and "js_ge (Math_round (js_times (js_div c n) 100)) 100 \<longleftrightarrow> 199 * n \<le> 200 * c"
proof -
  show "js_ge (Math_round (js_times (js_div c n) 100)) 25 \<longleftrightarrow> 49 * n \<le> 200 * c"
    using js_ge_threshold [OF assms, of 49 25 c] boundary_25 by simp
  show "js_ge (Math_round (js_times (js_div c n) 100)) 50 \<longleftrightarrow> 99 * n \<le> 200 * c"
    using js_ge_threshold [OF assms, of 99 50 c] boundary_50 by simp
  show "js_ge (Math_round (js_times (js_div c n) 100)) 75 \<longleftrightarrow> 149 * n \<le> 200 * c"
    using js_ge_threshold [OF assms, of 149 75 c] boundary_75 by simp
  show "js_ge (Math_round (js_times (js_div c n) 100)) 100 \<longleftrightarrow> 199 * n \<le> 200 * c"
    using js_ge_threshold [OF assms, of 199 100 c] boundary_100 by simp
qed

lemma progress_23_of_40: "overallProgress tasks_23_of_40 = Num 57"
proof -
  have c: "completedTasks tasks_23_of_40 = 23"
    by (simp add: tasks_23_of_40_def completedTasks_def done_task_def pending_task_def)
  have l: "length tasks_23_of_40 = 40" by (simp add: tasks_23_of_40_def)
  have "Math_round (js_times (js_div 23 40) 100) = Num 57" by code_simp
  then show ?thesis by (simp only: overallProgress_def c l)
qed

lemma progress_29_of_200: "Math_round (js_times (js_div 29 200) 100) = Num 14"
  by code_simp

text \<open>
  Claim C4, amended. The five milestones carry the percentages 0, 25, 50, 75 and 100 and
  are a function of the statuses alone. The first one is always marked; for a non-empty
  task list (of fewer than \<open>2^32\<close> tasks, as every array is) each of the others is
  marked exactly when the percentage of completed tasks, computed in binary64
  arithmetic and rounded to the nearest integer with halves up, reaches its threshold,
  and this is the case exactly when the exact percentage reaches the threshold minus
  one half (\<open>200 * completed \<ge> (2 * threshold - 1) * total\<close>): the two roundings of
  the quotient and of the product move no task count across one of the four
  thresholds. For the empty list none of the other four is marked.
\<close>
theorem milestones_rounded_percentage:
  fixes ts :: "('i, 'z) task_scheme list"
  shows "map percentage (milestones ts) = [0, 25, 50, 75, 100] \<and>
    (ts \<noteq> [] \<and> length ts < 2 ^ 32 \<longrightarrow>
       map completed (milestones ts) =
         [True,
          49 * length ts \<le> 200 * completedTasks ts,
          99 * length ts \<le> 200 * completedTasks ts,
          149 * length ts \<le> 200 * completedTasks ts,
          199 * length ts \<le> 200 * completedTasks ts]) \<and>
    (ts = [] \<longrightarrow> map completed (milestones ts) = [True, False, False, False, False]) \<and>
    (\<forall>ts' :: ('i, 'z) task_scheme list. map status ts' = map status ts \<longrightarrow> milestones ts' = milestones ts)"
proof (intro conjI impI allI)
  show "map percentage (milestones ts) = [0, 25, 50, 75, 100]"
    by (simp add: milestones_def)
next
  assume "ts \<noteq> [] \<and> length ts < 2 ^ 32"
  then have n: "0 < length ts" "length ts < 2 ^ 32" by simp_all
  have "map completed (milestones ts) =
         [True,
          js_ge (Math_round (js_times (js_div (completedTasks ts) (length ts)) 100)) 25,
          js_ge (Math_round (js_times (js_div (completedTasks ts) (length ts)) 100)) 50,
          js_ge (Math_round (js_times (js_div (completedTasks ts) (length ts)) 100)) 75,
          js_ge (Math_round (js_times (js_div (completedTasks ts) (length ts)) 100)) 100]"
    by (simp add: milestones_def overallProgress_def)
  then show "map completed (milestones ts) =
         [True,
          49 * length ts \<le> 200 * completedTasks ts,
          99 * length ts \<le> 200 * completedTasks ts,
          149 * length ts \<le> 200 * completedTasks ts,
          199 * length ts \<le> 200 * completedTasks ts]"
    by (simp only: js_ge_thresholds [OF n])
next
  assume "ts = []"
  then show "map completed (milestones ts) = [True, False, False, False, False]"
    by (simp add: milestones_def overallProgress_def completedTasks_def js_div_def)
next
  fix ts' :: "('i, 'z) task_scheme list"
  assume "map status ts' = map status ts"
  then have "overallProgress ts' = overallProgress ts" by (rule overallProgress_status)
  then show "milestones ts' = milestones ts"
    by (simp add: milestones_def)
qed

lemma progress_38_of_51: "overallProgress tasks_38_of_51 = Num 75"
proof -
  have c: "completedTasks tasks_38_of_51 = 38"
    by (simp add: tasks_38_of_51_def completedTasks_def done_task_def pending_task_def)
  have l: "length tasks_38_of_51 = 51" by (simp add: tasks_38_of_51_def)
  have "Math_round (js_times (js_div 38 51) 100) = Num 75" by code_simp
  then show ?thesis by (simp only: overallProgress_def c l)
qed

text \<open>
  Claim C4, as stated, fails: the thresholds are compared with the rounded percentage.
  With 38 of 51 tasks completed the proportion is below 75 percent (74.5098...), the
  rounded percentage is 75, and the 75 percent milestone is marked completed.
\<close>
theorem milestone_below_threshold_counterexample:
  "completed (milestones tasks_38_of_51 ! 3) \<and>
   percentage (milestones tasks_38_of_51 ! 3) = 75 \<and>
   (of_nat (completedTasks tasks_38_of_51) / of_nat (length tasks_38_of_51) :: rat) < 75 / 100"
proof -
  have c: "completedTasks tasks_38_of_51 = 38"
    by (simp add: tasks_38_of_51_def completedTasks_def done_task_def pending_task_def)
  have l: "length tasks_38_of_51 = 51" by (simp add: tasks_38_of_51_def)
  show ?thesis by (simp add: milestones_def progress_38_of_51 c l)
qed

theorem milestones_rounded_percentage_witness:
  "tasks_38_of_51 \<noteq> [] \<and> length tasks_38_of_51 < 2 ^ 32 \<and>
   map completed (milestones tasks_38_of_51) = [True, True, True, True, False] \<and>
   map status (toggleTaskStatus 9 tasks_38_of_51) = map status tasks_38_of_51 \<and>
   milestones (toggleTaskStatus 9 tasks_38_of_51) = milestones tasks_38_of_51"
proof -
  have c: "completedTasks tasks_38_of_51 = 38"
    by (simp add: tasks_38_of_51_def completedTasks_def done_task_def pending_task_def)
  have l: "length tasks_38_of_51 = 51" by (simp add: tasks_38_of_51_def)
  have ne: "tasks_38_of_51 \<noteq> []" using l by auto
  have lt: "length tasks_38_of_51 < 2 ^ 32" by (simp add: l)
  have "9 \<notin> task_id ` set tasks_38_of_51"
    by (simp add: tasks_38_of_51_def done_task_def pending_task_def)
  then have same: "map status (toggleTaskStatus 9 tasks_38_of_51) = map status tasks_38_of_51"
    by (simp add: toggle_absent)
  note th = milestones_rounded_percentage [of tasks_38_of_51]
  have a: "map completed (milestones tasks_38_of_51) = [True, True, True, True, False]"
    using th [THEN conjunct2, THEN conjunct1, rule_format, OF conjI, OF ne lt]
    by (simp add: c l)
  have b: "milestones (toggleTaskStatus 9 tasks_38_of_51) = milestones tasks_38_of_51"
    using th [THEN conjunct2, THEN conjunct2, THEN conjunct2, rule_format, OF same] .
  from ne lt a same b show ?thesis by blast
qed

subsection \<open>Grouping by team member\<close>

lemma push_member_map:
  "distinct (map fst own) \<Longrightarrow>
   push_member key x own = map (\<lambda>(k, xs). if k = key then (k, xs @ [x]) else (k, xs)) own"
proof (induction own)
  case Nil
  then show ?case by simp
next
  case (Cons e own)
  obtain k xs where e: "e = (k, xs)" by (cases e)
  show ?case
  proof (cases "k = key")
    case True
    then have "key \<notin> fst ` set own" using Cons.prems e by auto
    then have "map (\<lambda>(k, xs). if k = key then (k, xs @ [x]) else (k, xs)) own = own"
      by (intro map_idI) (auto simp: rev_image_eqI)
    then show ?thesis using True e by simp
  next
    case False
    then show ?thesis using Cons e by simp
  qed
qed

lemma sum_push:
  "key \<in> fst ` set own \<Longrightarrow> distinct (map fst own) \<Longrightarrow>
   sum_list (map (\<lambda>(k, xs). length xs)
      (map (\<lambda>(k, xs). if k = key then (k, xs @ [x]) else (k, xs)) own))
     = Suc (sum_list (map (\<lambda>(k, xs). length xs) own))"
proof (induction own)
  case Nil
  then show ?case by simp
next
  case (Cons e own)
  obtain k xs where e: "e = (k, xs)" by (cases e)
  show ?case
  proof (cases "k = key")
    case True
    then have "key \<notin> fst ` set own" using Cons.prems e by auto
    then have "map (\<lambda>(k, xs). if k = key then (k, xs @ [x]) else (k, xs)) own = own"
      by (intro map_idI) (auto simp: rev_image_eqI)
    then show ?thesis using True e by simp
  next
    case False
    then show ?thesis using Cons e by auto
  qed
qed

lemma grouped_push:
  assumes g: "grouped seen own" and k: "assignee t \<in> fst ` set own"
  shows "grouped (seen @ [t])
           (map (\<lambda>(k, xs). if k = assignee t then (k, xs @ [t]) else (k, xs)) own)"
proof -
  let ?f = "\<lambda>(k, xs). if k = assignee t then (k, xs @ [t]) else (k, xs)"
  have fst: "map fst (map ?f own) = map fst own" by (auto simp: case_prod_beta)
  have d: "distinct (map fst own)" using g by (simp add: grouped_def)
  have 1: "distinct (map fst (map ?f own))" using d by (simp only: fst)
  have 2: "\<forall>(k, xs)\<in>set (map ?f own). xs = filter (\<lambda>u. assignee u = k) (seen @ [t]) \<and> xs \<noteq> []"
  proof (clarify)
    fix k xs
    assume "(k, xs) \<in> set (map ?f own)"
    then obtain a b where ab: "(a, b) \<in> set own" and eq: "?f (a, b) = (k, xs)" by auto
    from g ab have b: "b = filter (\<lambda>u. assignee u = a) seen" "b \<noteq> []"
      by (auto simp: grouped_def)
    show "xs = filter (\<lambda>u. assignee u = k) (seen @ [t]) \<and> xs \<noteq> []"
    proof (cases "a = assignee t")
      case True
      then have "k = a" "xs = b @ [t]" using eq by simp_all
      then show ?thesis using b True by simp
    next
      case False
      then have "k = a" "xs = b" using eq by simp_all
      then show ?thesis using b False by auto
    qed
  qed
  have "fst ` set (map ?f own) = set (map fst (map ?f own))" by (simp only: set_map)
  also have "\<dots> = fst ` set own" by (simp only: fst set_map)
  finally have 3: "fst ` set (map ?f own) = assignee ` set (seen @ [t])"
    using g k by (auto simp: grouped_def)
  have 4: "sum_list (map (\<lambda>(k, xs). length xs) (map ?f own)) = length (seen @ [t])"
    using sum_push [OF k d, of t] g by (simp add: grouped_def)
  show ?thesis unfolding grouped_def using 1 2 3 4 by blast
qed

lemma grouped_new:
  assumes g: "grouped seen own" and k: "assignee t \<notin> fst ` set own"
  shows "grouped (seen @ [t]) (own @ [(assignee t, [t])])"
proof -
  have "assignee t \<notin> assignee ` set seen" using g k by (simp add: grouped_def)
  then have none: "filter (\<lambda>u. assignee u = assignee t) seen = []"
    by (auto simp: filter_empty_conv image_iff)
  have other: "\<forall>(k, xs)\<in>set own. k \<noteq> assignee t" using k by (auto simp: rev_image_eqI)
  show ?thesis unfolding grouped_def using g k none other
    by (auto simp: grouped_def)
qed

lemma group_step_grouped:
  assumes g: "grouped seen own" and ok: "assignee t \<notin> set Object_prototype_keys"
  shows "\<exists>own'. group_step t own = Inr own' \<and> grouped (seen @ [t]) own'"
proof (cases "assignee t \<in> fst ` set own")
  case True
  have d: "distinct (map fst own)" using g by (simp add: grouped_def)
  from True obtain xs where xs: "map_of own (assignee t) = Some xs"
    by (metis domD dom_map_of_conv_image_fst)
  then have "group_step t own = Inr (push_member (assignee t) t own)"
    by (simp add: group_step_def get_property_def)
  then show ?thesis using grouped_push [OF g True] push_member_map [OF d] by simp
next
  case False
  then have none: "map_of own (assignee t) = None"
    by (simp add: map_of_eq_None_iff)
  have d: "distinct (map fst (own @ [(assignee t, [])]))"
    using g False by (simp add: grouped_def)
  have "push_member (assignee t) t (own @ [(assignee t, [])]) = own @ [(assignee t, [t])]"
    using False by (induction own) auto
  then have "group_step t own = Inr (own @ [(assignee t, [t])])"
    using none ok False by (simp add: group_step_def get_property_def map_add_def split: option.splits)
  then show ?thesis using grouped_new [OF g False] by simp
qed

lemma group_tasks_grouped:
  assumes "grouped seen own" and "\<forall>t\<in>set rest. assignee t \<notin> set Object_prototype_keys"
  shows "\<exists>own'. group_tasks rest own = Inr own' \<and> grouped (seen @ rest) own'"
  using assms
proof (induction rest arbitrary: seen own)
  case Nil
  then show ?case by simp
next
  case (Cons t rest)
  from Cons.prems obtain own1 where s: "group_step t own = Inr own1" and g1: "grouped (seen @ [t]) own1"
    using group_step_grouped [of seen own t] by auto
  from Cons.IH [OF g1] Cons.prems(2) obtain own' where
    "group_tasks rest own1 = Inr own'" "grouped ((seen @ [t]) @ rest) own'" by auto
  then show ?case using s by simp
qed

lemma mset_Object_entries: "mset (Object_entries own) = mset own"
proof -
  have "mset (Object_entries own)
          = mset (filter (\<lambda>(k, v). is_array_index k) own) + mset (filter (\<lambda>(k, v). \<not> is_array_index k) own)"
    by (simp add: Object_entries_def)
  also have "\<dots> = mset own"
    by (induction own) auto
  finally show ?thesis .
qed

lemma group_step_prototype:
  assumes "assignee t \<in> set Object_prototype_keys" and "assignee t \<notin> fst ` set own"
  shows "group_step t own = Inl TypeError"
proof -
  have "map_of own (assignee t) = None" using assms(2) by (simp add: map_of_eq_None_iff)
  then show ?thesis using assms(1) by (simp add: group_step_def get_property_def)
qed

lemma push_member_keys: "map fst (push_member k x own) = map fst own"
  by (induction own) auto

lemma sum_list_mset_cong:
  fixes f :: "'a \<Rightarrow> nat"
  assumes "mset xs = mset ys"
  shows "sum_list (map f xs) = sum_list (map f ys)"
proof -
  have "mset (map f xs) = mset (map f ys)" using assms by (metis mset_map)
  then show ?thesis by (metis sum_mset_sum_list)
qed

lemma subset_insert_disjoint:
  "A \<subseteq> insert x B \<Longrightarrow> B \<inter> P = {} \<Longrightarrow> x \<notin> P \<Longrightarrow> A \<inter> P = {}"
  by blast

lemma member_entry_fields:
  "member (member_entry (k, xs)) = k" "member_tasks (member_entry (k, xs)) = xs"
  "total (member_entry (k, xs)) = length xs"
  by (simp_all add: member_entry_def)

lemma teamProgress_partition:
  fixes ts :: "('i, 'z) task_scheme list"
  assumes "\<forall>t\<in>set ts. assignee t \<notin> set Object_prototype_keys"
  shows "\<exists>ps. teamProgress ts = Inr ps \<and>
           distinct (map member ps) \<and>
           set (map member ps) = assignee ` set ts \<and>
           (\<forall>p\<in>set ps. member_tasks p = filter (\<lambda>t. assignee t = member p) ts \<and>
                        member_tasks p \<noteq> [] \<and> total p = length (member_tasks p)) \<and>
           sum_list (map total ps) = length ts"
proof -
  have "grouped [] ([] :: (string \<times> ('i, 'z) task_scheme list) list)"
    by (simp add: grouped_def)
  from group_tasks_grouped [OF this assms] obtain own where
    own: "group_tasks ts [] = Inr own" and g: "grouped ts own" by auto
  let ?es = "Object_entries own"
  let ?ps = "map member_entry ?es"
  have tp: "teamProgress ts = Inr ?ps"
    by (simp add: teamProgress_def tasksByMember_def own)
  have ms: "mset ?es = mset own" by (rule mset_Object_entries)
  have mem: "map member ?ps = map fst ?es"
    by (simp add: member_entry_def case_prod_beta comp_def)
  have "mset (map fst ?es) = mset (map fst own)" using ms by (metis mset_map)
  then have "distinct (map fst ?es) \<longleftrightarrow> distinct (map fst own)"
    by (rule mset_eq_imp_distinct_iff)
  then have 1: "distinct (map member ?ps)" using g by (simp only: mem grouped_def)
  have se: "set ?es = set own" using ms by (rule mset_eq_setD)
  have "set (map member ?ps) = fst ` set ?es" by (simp only: mem set_map)
  then have 2: "set (map member ?ps) = assignee ` set ts" using g se by (simp add: grouped_def)
  have 3: "\<forall>p\<in>set ?ps. member_tasks p = filter (\<lambda>t. assignee t = member p) ts \<and>
                        member_tasks p \<noteq> [] \<and> total p = length (member_tasks p)"
  proof
    fix p assume "p \<in> set ?ps"
    then obtain k xs where kx: "(k, xs) \<in> set own" and p: "p = member_entry (k, xs)"
      using se by auto
    from g kx have "xs = filter (\<lambda>t. assignee t = k) ts \<and> xs \<noteq> []"
      by (auto simp: grouped_def)
    then show "member_tasks p = filter (\<lambda>t. assignee t = member p) ts \<and>
                        member_tasks p \<noteq> [] \<and> total p = length (member_tasks p)"
      by (auto simp: p member_entry_fields)
  qed
  have "map total ?ps = map (\<lambda>(k, xs). length xs) ?es"
    by (simp add: member_entry_def case_prod_beta comp_def)
  also have "sum_list (map (\<lambda>(k, xs). length xs) ?es) = sum_list (map (\<lambda>(k, xs). length xs) own)"
    using ms by (rule sum_list_mset_cong)
  finally have 4: "sum_list (map total ?ps) = length ts" using g by (simp add: grouped_def)
  show ?thesis using tp 1 2 3 4 by blast
qed

lemma group_tasks_prototype:
  assumes "\<exists>t\<in>set rest. assignee t \<in> set Object_prototype_keys"
    and "fst ` set own \<inter> set Object_prototype_keys = {}"
  shows "group_tasks rest own = Inl TypeError"
  using assms
proof (induction rest arbitrary: own)
  case Nil
  then show ?case by simp
next
  case (Cons t rest)
  show ?case
  proof (cases "assignee t \<in> set Object_prototype_keys")
    case True
    then have "assignee t \<notin> fst ` set own" using Cons.prems(2) by auto
    then show ?thesis using True by (simp add: group_step_prototype)
  next
    case False
    have later: "\<exists>t\<in>set rest. assignee t \<in> set Object_prototype_keys"
      using Cons.prems(1) False by auto
    show ?thesis
    proof (cases "group_step t own")
      case (Inl e)
      then show ?thesis by (cases e) simp
    next
      case (Inr own')
      from Inr obtain own1 where o1: "own' = push_member (assignee t) t own1"
        and o2: "own1 = own \<or> own1 = own @ [(assignee t, [])]"
        by (auto simp: group_step_def Let_def split: if_splits property_value.splits)
      have "set (map fst own') = set (map fst own1)" by (simp only: o1 push_member_keys)
      then have "fst ` set own' = fst ` set own1" by (simp only: set_map)
      then have "fst ` set own' \<subseteq> insert (assignee t) (fst ` set own)"
        using o2 by auto
      then have "fst ` set own' \<inter> set Object_prototype_keys = {}"
        using Cons.prems(2) False by (rule subset_insert_disjoint)
      from Cons.IH [OF later this] show ?thesis using Inr by simp
    qed
  qed
qed

lemma teamProgress_TypeError_iff:
  "teamProgress ts = Inl TypeError \<longleftrightarrow> (\<exists>t\<in>set ts. assignee t \<in> set Object_prototype_keys)"
proof
  assume "teamProgress ts = Inl TypeError"
  then show "\<exists>t\<in>set ts. assignee t \<in> set Object_prototype_keys"
    using teamProgress_partition [of ts] by auto
next
  assume "\<exists>t\<in>set ts. assignee t \<in> set Object_prototype_keys"
  then have "group_tasks ts [] = Inl TypeError" by (rule group_tasks_prototype) simp
  then show "teamProgress ts = Inl TypeError" by (simp add: teamProgress_def tasksByMember_def)
qed

text \<open>
  Claim C10 at a task assigned to a member called \<open>constructor\<close>: the grouping loop
  throws, and no team view is produced. The lemma \<open>teamProgress_partition\<close> above
  shows the partition for every task list without such a name, and
  \<open>teamProgress_TypeError_iff\<close> that these names are the only failure.
\<close>
theorem teamProgress_constructor_TypeError:
  "tasksByMember [pending_task, constructor_task] = Inl TypeError \<and>
   teamProgress [pending_task, constructor_task] = Inl TypeError"
  by (simp add: teamProgress_def tasksByMember_def group_step_def get_property_def
      Object_prototype_keys_def pending_task_def constructor_task_def)

section \<open>Properties of the planning engine\<close>

lemma dfs_dropped:
  "d \<in> set visiting \<or> n \<le> d \<Longrightarrow> dfs n g visiting (d # ds) out = dfs n g visiting ds out"
  by simp

lemma dfs_finished:
  "\<not> (d \<in> set visiting \<or> n \<le> d) \<Longrightarrow> d \<in> fst ` set out \<Longrightarrow>
   dfs n g visiting (d # ds) out =
     (fst (dfs n g visiting ds out), d # snd (dfs n g visiting ds out))"
  by (simp add: Let_def)

lemma dfs_fresh:
  "\<not> (d \<in> set visiting \<or> n \<le> d) \<Longrightarrow> d \<notin> fst ` set out \<Longrightarrow>
   dfs n g visiting (d # ds) out =
     (fst (dfs n g visiting ds (fst (dfs n g (d # visiting) (g d) out) @ [(d, snd (dfs n g (d # visiting) (g d) out))])),
      d # snd (dfs n g visiting ds (fst (dfs n g (d # visiting) (g d) out) @ [(d, snd (dfs n g (d # visiting) (g d) out))])))"
  by (simp add: Let_def case_prod_beta)

lemma dfs_cases [case_names nil dropped finished fresh]:
  assumes "\<And>n g visiting out. P n g visiting [] out"
    and "\<And>n g visiting d ds out.
           d \<in> set visiting \<or> n \<le> d \<Longrightarrow> P n g visiting ds out \<Longrightarrow> P n g visiting (d # ds) out"
    and "\<And>n g visiting d ds out.
           d \<notin> set visiting \<Longrightarrow> d < n \<Longrightarrow> d \<in> fst ` set out \<Longrightarrow>
           P n g visiting ds out \<Longrightarrow> P n g visiting (d # ds) out"
    and "\<And>n g visiting d ds out.
           d \<notin> set visiting \<Longrightarrow> d < n \<Longrightarrow> d \<notin> fst ` set out \<Longrightarrow>
           P n g (d # visiting) (g d) out \<Longrightarrow>
           P n g visiting ds (fst (dfs n g (d # visiting) (g d) out) @ [(d, snd (dfs n g (d # visiting) (g d) out))]) \<Longrightarrow>
           P n g visiting (d # ds) out"
  shows "P n g visiting ds out"
proof (induction n g visiting ds out rule: dfs.induct)
  case (1 n g visiting out)
  show ?case by (rule assms(1))
next
  case (2 n g visiting d ds out)
  show ?case
  proof (cases "d \<in> set visiting \<or> n \<le> d")
    case True
    then show ?thesis using 2(1) assms(2) by blast
  next
    case False
    then have nv: "d \<notin> set visiting" and dn: "d < n" by auto
    show ?thesis
    proof (cases "d \<in> fst ` set out")
      case True
      have "P n g visiting ds out" using 2(3) [OF False] True by simp
      then show ?thesis using assms(3) nv dn True by blast
    next
      case fresh: False
      have a: "P n g (d # visiting) (g d) out" using 2(2) [OF False fresh] .
      have b: "P n g visiting ds (fst (dfs n g (d # visiting) (g d) out) @ [(d, snd (dfs n g (d # visiting) (g d) out))])"
        using 2(3) [OF False] fresh by (simp add: case_prod_beta)
      show ?thesis using assms(4) [OF nv dn fresh a b] .
    qed
  qed
qed

declare dfs.simps(2) [simp del]

lemma dfs_kept: "snd (dfs n g visiting ds out) = filter (\<lambda>d. d \<notin> set visiting \<and> d < n) ds"
proof (induction n g visiting ds out rule: dfs_cases)
  case (nil n g visiting out)
  show ?case by simp
next
  case (dropped n g visiting d ds out)
  then show ?case by (auto simp: dfs_dropped)
next
  case (finished n g visiting d ds out)
  then show ?case by (simp add: dfs_finished)
next
  case (fresh n g visiting d ds out)
  then show ?case by (simp add: dfs_fresh)
qed

lemma dfs_emitted:
  "\<exists>ys. fst (dfs n g visiting ds out) = out @ ys \<and>
        fst ` set ys \<subseteq> {0..<n} - set visiting - fst ` set out \<and> distinct (map fst ys)"
proof (induction n g visiting ds out rule: dfs_cases)
  case (nil n g visiting out)
  show ?case by simp
next
  case (dropped n g visiting d ds out)
  then show ?case by (simp add: dfs_dropped)
next
  case (finished n g visiting d ds out)
  then show ?case by (simp add: dfs_finished)
next
  case (fresh n g visiting d ds out)
  let ?r1 = "dfs n g (d # visiting) (g d) out"
  let ?out1 = "fst ?r1 @ [(d, snd ?r1)]"
  from fresh(4) obtain ys1 where ys1: "fst ?r1 = out @ ys1"
    "fst ` set ys1 \<subseteq> {0..<n} - set (d # visiting) - fst ` set out" "distinct (map fst ys1)"
    by blast
  from fresh(5) obtain ys2 where ys2: "fst (dfs n g visiting ds ?out1) = ?out1 @ ys2"
    "fst ` set ys2 \<subseteq> {0..<n} - set visiting - fst ` set ?out1" "distinct (map fst ys2)"
    by blast
  let ?ys = "ys1 @ [(d, snd ?r1)] @ ys2"
  have eq: "fst (dfs n g visiting (d # ds) out) = out @ ?ys"
    using fresh(1,2,3) ys1(1) ys2(1) by (simp add: dfs_fresh)
  have d1: "d \<notin> fst ` set ys1" using ys1(2) by auto
  have out1: "fst ` set ?out1 = fst ` set out \<union> fst ` set ys1 \<union> {d}"
    by (auto simp: ys1(1))
  have d2: "d \<notin> fst ` set ys2" using ys2(2) out1 by blast
  have disj: "fst ` set ys1 \<inter> fst ` set ys2 = {}" using ys2(2) out1 by blast
  have sub: "fst ` set ?ys \<subseteq> {0..<n} - set visiting - fst ` set out"
  proof -
    have "fst ` set ys1 \<subseteq> {0..<n} - set visiting - fst ` set out" using ys1(2) by auto
    moreover have "fst ` set ys2 \<subseteq> {0..<n} - set visiting - fst ` set out" using ys2(2) out1 by blast
    moreover have "d \<in> {0..<n} - set visiting - fst ` set out" using fresh(1,2,3) by simp
    ultimately show ?thesis by (simp add: image_Un)
  qed
  have dist: "distinct (map fst ?ys)"
    using ys1(3) ys2(3) d1 d2 disj by (simp add: image_iff)
  show ?case using eq sub dist by blast
qed

lemma dfs_grows: "set out \<subseteq> set (fst (dfs n g visiting ds out))"
  using dfs_emitted [of n g visiting ds out] by auto

lemma dfs_keeps_emitted:
  "d \<in> set ds \<Longrightarrow> d \<notin> set visiting \<Longrightarrow> d < n \<Longrightarrow> d \<in> fst ` set (fst (dfs n g visiting ds out))"
proof (induction n g visiting ds out arbitrary: d rule: dfs_cases)
  case (nil n g visiting out)
  then show ?case by simp
next
  case (dropped n g visiting e ds out)
  then show ?case by (auto simp: dfs_dropped)
next
  case (finished n g visiting e ds out)
  show ?case
  proof (cases "d = e")
    case True
    then show ?thesis using finished(1,2,3) dfs_grows [of out n g visiting ds]
      by (auto simp: dfs_finished)
  next
    case False
    then show ?thesis using finished by (simp add: dfs_finished)
  qed
next
  case (fresh n g visiting e ds out)
  let ?r1 = "dfs n g (e # visiting) (g e) out"
  let ?out1 = "fst ?r1 @ [(e, snd ?r1)]"
  show ?case
  proof (cases "d = e")
    case True
    have "(e, snd ?r1) \<in> set (fst (dfs n g visiting ds ?out1))"
      using dfs_grows [of ?out1 n g visiting ds] by auto
    then have "e \<in> fst ` set (fst (dfs n g visiting ds ?out1))" by force
    then show ?thesis using True fresh(1,2,3) by (simp add: dfs_fresh)
  next
    case False
    then have "d \<in> fst ` set (fst (dfs n g visiting ds ?out1))"
      using fresh(5) [of d] fresh(6,7,8) by simp
    then show ?thesis using fresh(1,2,3) by (simp add: dfs_fresh)
  qed
qed

lemma ordered_append:
  "ordered seen (xs @ ys) \<longleftrightarrow> ordered seen xs \<and> ordered (seen \<union> fst ` set xs) ys"
  by (induction xs arbitrary: seen) (auto simp: insert_commute)

lemma ordered_mono: "ordered seen xs \<Longrightarrow> seen \<subseteq> seen' \<Longrightarrow> ordered seen' xs"
proof (induction xs arbitrary: seen seen')
  case Nil
  then show ?case by simp
next
  case (Cons e xs)
  obtain u ks where e: "e = (u, ks)" by (cases e)
  have "insert u seen \<subseteq> insert u seen'" using Cons.prems(2) by auto
  then show ?case using Cons e by auto
qed

lemma dfs_ordered: "ordered {} out \<Longrightarrow> ordered {} (fst (dfs n g visiting ds out))"
proof (induction n g visiting ds out rule: dfs_cases)
  case (nil n g visiting out)
  then show ?case by simp
next
  case (dropped n g visiting d ds out)
  then show ?case by (simp add: dfs_dropped)
next
  case (finished n g visiting d ds out)
  then show ?case by (simp add: dfs_finished)
next
  case (fresh n g visiting d ds out)
  let ?r1 = "dfs n g (d # visiting) (g d) out"
  let ?out1 = "fst ?r1 @ [(d, snd ?r1)]"
  have o1: "ordered {} (fst ?r1)" using fresh(4) fresh(6) by simp
  have "set (snd ?r1) \<subseteq> fst ` set (fst ?r1)"
  proof
    fix x assume "x \<in> set (snd ?r1)"
    then have "x \<in> set (g d)" "x \<notin> set (d # visiting)" "x < n"
      by (simp_all add: dfs_kept)
    then show "x \<in> fst ` set (fst ?r1)" by (rule dfs_keeps_emitted)
  qed
  then have "ordered {} ?out1" using o1 by (simp add: ordered_append)
  then have "ordered {} (fst (dfs n g visiting ds ?out1))" by (rule fresh(5))
  then show ?case using fresh(1,2,3) by (simp add: dfs_fresh)
qed

lemma dfs_entries:
  "on_path g visiting ds \<Longrightarrow> entries_ok n g out \<Longrightarrow> entries_ok n g (fst (dfs n g visiting ds out))"
proof (induction n g visiting ds out rule: dfs_cases)
  case (nil n g visiting out)
  then show ?case by simp
next
  case (dropped n g visiting d ds out)
  have "on_path g visiting ds" using dropped(3) by (auto simp: on_path_def)
  then show ?case using dropped by (simp add: dfs_dropped)
next
  case (finished n g visiting d ds out)
  have "on_path g visiting ds" using finished(5) by (auto simp: on_path_def)
  then show ?case using finished by (simp add: dfs_finished)
next
  case (fresh n g visiting d ds out)
  let ?r1 = "dfs n g (d # visiting) (g d) out"
  let ?out1 = "fst ?r1 @ [(d, snd ?r1)]"
  have p: "on_path g visiting ds" using fresh(6) by (auto simp: on_path_def)
  have reach: "\<forall>s\<in>set (d # visiting). (s, d) \<in> (graph_of g)\<^sup>*"
  proof
    fix s assume s: "s \<in> set (d # visiting)"
    show "(s, d) \<in> (graph_of g)\<^sup>*"
    proof (cases "s = d")
      case True
      then show ?thesis by simp
    next
      case False
      then have sv: "s \<in> set visiting" using s by simp
      then have ne: "visiting \<noteq> []" by auto
      from fresh(6) ne have op: "set (d # ds) \<subseteq> set (g (hd visiting))"
        "\<forall>s\<in>set visiting. (s, hd visiting) \<in> (graph_of g)\<^sup>*"
        unfolding on_path_def by blast+
      have a: "(s, hd visiting) \<in> (graph_of g)\<^sup>*" using op(2) sv by blast
      have "d \<in> set (g (hd visiting))" using op(1) by simp
      then have b: "(hd visiting, d) \<in> graph_of g" by (simp add: graph_of_def)
      show ?thesis using a b by (rule rtrancl_into_rtrancl)
    qed
  qed
  then have p1: "on_path g (d # visiting) (g d)" by (simp add: on_path_def)
  have e1: "entries_ok n g (fst ?r1)" using fresh(4) [OF p1 fresh(7)] .
  have kept: "snd ?r1 = filter (\<lambda>x. x \<notin> set (d # visiting) \<and> x < n) (g d)"
    by (rule dfs_kept)
  have "\<forall>x\<in>set (g d). x < n \<longrightarrow> x \<notin> set (snd ?r1) \<longrightarrow> (x, d) \<in> (graph_of g)\<^sup>*"
  proof (intro ballI impI)
    fix x assume "x \<in> set (g d)" "x < n" "x \<notin> set (snd ?r1)"
    then have "x \<in> set (d # visiting)" by (auto simp: kept)
    then show "(x, d) \<in> (graph_of g)\<^sup>*" using reach by blast
  qed
  moreover have "set (snd ?r1) \<subseteq> set (g d)" by (auto simp: kept)
  ultimately have "entries_ok n g ?out1"
    using e1 fresh(2) by (simp add: entries_ok_def)
  then have "entries_ok n g (fst (dfs n g visiting ds ?out1))" using fresh(5) [OF p] by simp
  then show ?case using fresh(1,2,3) by (simp add: dfs_fresh)
qed

lemma resolution_facts:
  fixes ts :: "Task list"
  shows "distinct (map fst (resolution ts))"
  "fst ` set (resolution ts) = {0..<length ts}"
  "ordered {} (resolution ts)"
  "entries_ok (length ts) (deps_of ts) (resolution ts)"
proof -
  let ?n = "length ts"
  have top: "distinct (map fst (resolution ts)) \<and> fst ` set (resolution ts) \<subseteq> {0..<?n}"
    using dfs_emitted [of ?n "deps_of ts" "[]" "[0..<?n]" "[]"]
    by (auto simp: resolution_def)
  show "distinct (map fst (resolution ts))" using top by simp
  have "{0..<?n} \<subseteq> fst ` set (resolution ts)"
  proof
    fix d assume "d \<in> {0..<?n}"
    then have "d \<in> set [0..<?n]" "d \<notin> set []" "d < ?n" by simp_all
    then show "d \<in> fst ` set (resolution ts)"
      unfolding resolution_def by (rule dfs_keeps_emitted)
  qed
  moreover have "fst ` set (resolution ts) \<subseteq> {0..<?n}" using top by simp
  ultimately show "fst ` set (resolution ts) = {0..<?n}" by (rule subset_antisym [rotated])
  show "ordered {} (resolution ts)"
    unfolding resolution_def by (rule dfs_ordered) simp
  show "entries_ok ?n (deps_of ts) (resolution ts)"
    unfolding resolution_def by (rule dfs_entries) (simp_all add: on_path_def entries_ok_def)
qed

lemma resolution_perm: "mset (map fst (resolution ts)) = mset [0..<length ts]"
proof -
  have "set (map fst (resolution ts)) = set [0..<length ts]"
    using resolution_facts(2) [of ts] by simp
  then show ?thesis
    using set_eq_iff_mset_eq_distinct [OF resolution_facts(1) [of ts] distinct_upt] by blast
qed

lemma resolve_eq: "resolve ts = resolved_tasks ts"
  by (simp add: resolve_def resolve_strict_def)

lemma graph_of_deps: "graph_of (deps_of ts) = depends ts"
  by (auto simp: graph_of_def deps_of_def depends_def split: if_splits)

lemma well_formed_nth: "well_formed ts \<Longrightarrow> u < length ts \<Longrightarrow> taskId (ts ! u) = u"
proof -
  assume wf: "well_formed ts" and u: "u < length ts"
  then have "map taskId ts ! u = [0..<length ts] ! u" by (simp add: well_formed_def)
  then show ?thesis using u by simp
qed

lemma resolved_kept:
  "mset (map (\<lambda>t. t\<lparr>dependsOn := []\<rparr>) (resolved_tasks ts)) = mset (map (\<lambda>t. t\<lparr>dependsOn := []\<rparr>) ts)"
proof -
  have "map (\<lambda>t. t\<lparr>dependsOn := []\<rparr>) (resolved_tasks ts)
          = map (\<lambda>u. (ts ! u)\<lparr>dependsOn := []\<rparr>) (map fst (resolution ts))"
    by (simp add: resolved_tasks_def case_prod_beta comp_def)
  then have "mset (map (\<lambda>t. t\<lparr>dependsOn := []\<rparr>) (resolved_tasks ts))
          = image_mset (\<lambda>u. (ts ! u)\<lparr>dependsOn := []\<rparr>) (mset (map fst (resolution ts)))"
    by (simp only: mset_map)
  also have "\<dots> = image_mset (\<lambda>u. (ts ! u)\<lparr>dependsOn := []\<rparr>) (mset [0..<length ts])"
    by (simp only: resolution_perm)
  also have "\<dots> = mset (map (\<lambda>u. (ts ! u)\<lparr>dependsOn := []\<rparr>) [0..<length ts])"
    by (simp only: mset_map)
  also have "map (\<lambda>u. (ts ! u)\<lparr>dependsOn := []\<rparr>) [0..<length ts] = map (\<lambda>t. t\<lparr>dependsOn := []\<rparr>) ts"
    by (rule nth_equalityI) simp_all
  finally show ?thesis .
qed

lemma ordered_topological:
  assumes "\<forall>u<length ts. taskId (ts ! u) = u"
  shows "ordered seen out \<Longrightarrow> distinct (map fst out) \<Longrightarrow> fst ` set out \<inter> seen = {} \<Longrightarrow>
         fst ` set out \<subseteq> {0..<length ts} \<Longrightarrow>
         topological seen (map (\<lambda>(u, kept). (ts ! u)\<lparr>dependsOn := kept\<rparr>) out)"
proof (induction out arbitrary: seen)
  case Nil
  then show ?case by simp
next
  case (Cons e out)
  obtain u kept where e: "e = (u, kept)" by (cases e)
  have u: "u < length ts" using Cons.prems(4) e by simp
  have id: "taskId (ts ! u) = u" using assms u by simp
  have "fst ` set out \<inter> insert u seen = {}" using Cons.prems(2,3) e by auto
  then have "topological (insert u seen) (map (\<lambda>(u, kept). (ts ! u)\<lparr>dependsOn := kept\<rparr>) out)"
    using Cons.IH [of "insert u seen"] Cons.prems e by simp
  moreover have "u \<notin> seen" using Cons.prems(3) e by auto
  ultimately show ?case using Cons.prems(1) e id by simp
qed

lemma resolved_topological: "well_formed ts \<Longrightarrow> topological {} (resolved_tasks ts)"
  unfolding resolved_tasks_def
  by (rule ordered_topological)
     (simp_all add: well_formed_nth resolution_facts)

lemma topological_rank:
  "topological seen ts \<Longrightarrow>
   \<exists>f :: nat \<Rightarrow> nat. (\<forall>x\<in>seen. f x = 0) \<and> (\<forall>(u, d)\<in>depends_by_id ts. f d < f u)"
proof (induction ts arbitrary: seen)
  case Nil
  have "\<forall>x\<in>seen. (\<lambda>x. 0::nat) x = 0" by simp
  then show ?case by (auto simp: depends_by_id_def)
next
  case (Cons t ts)
  from Cons.prems have deps: "set (dependsOn t) \<subseteq> seen" and fresh: "taskId t \<notin> seen"
    and rest: "topological (insert (taskId t) seen) ts" by simp_all
  from Cons.IH [OF rest] obtain f' :: "nat \<Rightarrow> nat" where
    z: "\<forall>x\<in>insert (taskId t) seen. f' x = 0" and dec: "\<forall>(u, d)\<in>depends_by_id ts. f' d < f' u"
    by blast
  define f where "f x = (if x \<in> seen then 0 else f' x + 1)" for x
  have "\<forall>x\<in>seen. f x = 0" by (simp add: f_def)
  moreover have "\<forall>(u, d)\<in>depends_by_id (t # ts). f d < f u"
  proof (clarify)
    fix u d assume "(u, d) \<in> depends_by_id (t # ts)"
    then consider "u = taskId t" "d \<in> set (dependsOn t)" | "(u, d) \<in> depends_by_id ts"
      by (auto simp: depends_by_id_def)
    then show "f d < f u"
    proof cases
      case 1
      then show ?thesis using deps fresh by (auto simp: f_def)
    next
      case 2
      then have lt: "f' d < f' u" using dec by blast
      then have "u \<notin> seen" using z by auto
      then show ?thesis using lt by (simp add: f_def)
    qed
  qed
  ultimately show ?case by blast
qed

lemma topological_acyclic: "topological seen ts \<Longrightarrow> acyclic (depends_by_id ts)"
proof -
  assume "topological seen ts"
  then obtain f :: "nat \<Rightarrow> nat" where dec: "\<forall>(u, d)\<in>depends_by_id ts. f d < f u"
    using topological_rank by blast
  have "depends_by_id ts \<subseteq> (measure f)\<inverse>" using dec by auto
  moreover have "acyclic ((measure f)\<inverse>)"
    by (simp only: acyclic_converse) (rule wf_acyclic, rule wf_measure)
  ultimately show ?thesis by (rule acyclic_subset [rotated])
qed

lemma resolved_entry:
  assumes wf: "well_formed ts" and t: "t \<in> set (resolved_tasks ts)"
  shows "taskId t < length ts \<and> set (dependsOn t) \<subseteq> set (dependsOn (ts ! taskId t)) \<and>
         (\<forall>d\<in>set (dependsOn (ts ! taskId t)). d \<notin> set (dependsOn t) \<longrightarrow> (d, taskId t) \<in> (depends ts)\<^sup>*) \<and>
         (taskId t, dependsOn t) \<in> set (resolution ts)"
proof -
  from t obtain u kept where uk: "(u, kept) \<in> set (resolution ts)" and te: "t = (ts ! u)\<lparr>dependsOn := kept\<rparr>"
    by (auto simp: resolved_tasks_def)
  have ok: "u < length ts \<and> set kept \<subseteq> set (deps_of ts u) \<and>
        (\<forall>d\<in>set (deps_of ts u). d < length ts \<longrightarrow> d \<notin> set kept \<longrightarrow> (d, u) \<in> (graph_of (deps_of ts))\<^sup>*)"
    using resolution_facts(4) [of ts] uk by (auto simp: entries_ok_def)
  then have u: "u < length ts" by simp
  have id: "taskId (ts ! u) = u" by (rule well_formed_nth [OF wf u])
  have d: "deps_of ts u = dependsOn (ts ! u)" using u by (simp add: deps_of_def)
  have known: "\<forall>d\<in>set (dependsOn (ts ! u)). d < length ts"
    using wf u by (auto simp: well_formed_def)
  show ?thesis using ok known uk by (simp add: id d te graph_of_deps)
qed

lemma back_edges_set:
  "set (back_edges ts) =
     {(u, d). \<exists>kept. (u, kept) \<in> set (resolution ts) \<and> d \<in> set (deps_of ts u) \<and> d \<notin> set kept}"
  by (auto simp: back_edges_def)

lemma resolution_entry_unique:
  "(u, k1) \<in> set (resolution ts) \<Longrightarrow> (u, k2) \<in> set (resolution ts) \<Longrightarrow> k1 = k2"
  using resolution_facts(1) [of ts] by (meson eq_key_imp_eq_value)

lemma back_edge_cycle:
  assumes wf: "well_formed ts" and e: "(u, d) \<in> set (back_edges ts)"
  shows "(u, d) \<in> depends ts \<and> (d, u) \<in> (depends ts)\<^sup>*"
proof -
  from e obtain kept where uk: "(u, kept) \<in> set (resolution ts)" and d: "d \<in> set (deps_of ts u)"
    and nk: "d \<notin> set kept" by (auto simp: back_edges_set)
  have ok: "u < length ts \<and>
        (\<forall>d\<in>set (deps_of ts u). d < length ts \<longrightarrow> d \<notin> set kept \<longrightarrow> (d, u) \<in> (graph_of (deps_of ts))\<^sup>*)"
    using resolution_facts(4) [of ts] uk by (auto simp: entries_ok_def)
  then have u: "u < length ts" by simp
  have du: "d \<in> set (dependsOn (ts ! u))" using d u by (simp add: deps_of_def)
  then have "d < length ts" using wf u by (auto simp: well_formed_def)
  then have "(d, u) \<in> (depends ts)\<^sup>*" using ok d nk by (simp add: graph_of_deps)
  moreover have "(u, d) \<in> depends ts" using u du by (simp add: depends_def)
  ultimately show ?thesis by simp
qed

lemma resolved_graph:
  assumes wf: "well_formed ts"
  shows "depends_by_id (resolved_tasks ts) = depends ts - set (back_edges ts)"
proof (intro set_eqI iffI; clarify)
  fix u d assume "(u, d) \<in> depends_by_id (resolved_tasks ts)"
  then obtain t where t: "t \<in> set (resolved_tasks ts)" "taskId t = u" "d \<in> set (dependsOn t)"
    by (auto simp: depends_by_id_def)
  from resolved_entry [OF wf t(1)] t(2,3)
  have u: "u < length ts" and d: "d \<in> set (dependsOn (ts ! u))"
    and e: "(u, dependsOn t) \<in> set (resolution ts)" by auto
  have "(u, d) \<notin> set (back_edges ts)"
  proof
    assume "(u, d) \<in> set (back_edges ts)"
    then obtain kept where "(u, kept) \<in> set (resolution ts)" "d \<notin> set kept"
      by (auto simp: back_edges_set)
    then show False using resolution_entry_unique [OF e] t(3) by blast
  qed
  then show "(u, d) \<in> depends ts - set (back_edges ts)" using u d by (simp add: depends_def)
next
  fix u d assume ud: "(u, d) \<in> depends ts" and nb: "(u, d) \<notin> set (back_edges ts)"
  then have u: "u < length ts" and d: "d \<in> set (dependsOn (ts ! u))" by (simp_all add: depends_def)
  have "u \<in> fst ` set (resolution ts)" using u by (simp add: resolution_facts(2))
  then obtain kept where uk: "(u, kept) \<in> set (resolution ts)" by auto
  have "d \<in> set (deps_of ts u)" using u d by (simp add: deps_of_def)
  then have dk: "d \<in> set kept" using nb uk by (auto simp: back_edges_set)
  let ?t = "(ts ! u)\<lparr>dependsOn := kept\<rparr>"
  have "?t \<in> set (resolved_tasks ts)" using uk by (force simp: resolved_tasks_def)
  moreover have "taskId ?t = u" using well_formed_nth [OF wf u] by simp
  moreover have "d \<in> set (dependsOn ?t)" using dk by simp
  ultimately show "(u, d) \<in> depends_by_id (resolved_tasks ts)"
    unfolding depends_by_id_def by blast
qed

lemma no_back_edges_iff:
  assumes wf: "well_formed ts"
  shows "back_edges ts = [] \<longleftrightarrow> acyclic (depends ts)"
proof
  assume "back_edges ts = []"
  then have "depends_by_id (resolved_tasks ts) = depends ts" using resolved_graph [OF wf] by simp
  moreover have "acyclic (depends_by_id (resolved_tasks ts))"
    using resolved_topological [OF wf] by (rule topological_acyclic)
  ultimately show "acyclic (depends ts)" by simp
next
  assume ac: "acyclic (depends ts)"
  show "back_edges ts = []"
  proof (rule ccontr)
    assume "back_edges ts \<noteq> []"
    then obtain u d where "(u, d) \<in> set (back_edges ts)" by (cases "back_edges ts") auto
    then have "(u, d) \<in> depends ts" "(d, u) \<in> (depends ts)\<^sup>*"
      using back_edge_cycle [OF wf] by blast+
    then have "(u, u) \<in> (depends ts)\<^sup>+" by (rule rtrancl_into_trancl2)
    then show False using ac by (simp add: acyclic_def)
  qed
qed

lemma three_cycle_resolution: "resolution three_cycle = [(1, []), (2, [1]), (0, [2])]"
  by code_simp

lemma schedule_ids: "map taskId (schedule start ends ts) = map taskId ts"
  by (induction ts arbitrary: ends) (simp_all add: Let_def)

lemma schedule_frame:
  "map (\<lambda>t. t\<lparr>startDate := 0, endDate := 0\<rparr>) (schedule start ends ts)
     = map (\<lambda>t. t\<lparr>startDate := 0, endDate := 0\<rparr>) ts"
  by (induction ts arbitrary: ends) (simp_all add: Let_def)

lemma topological_fresh: "topological seen ts \<Longrightarrow> taskId ` set ts \<inter> seen = {}"
  by (induction ts arbitrary: seen) auto

lemma topological_distinct: "topological seen ts \<Longrightarrow> distinct (map taskId ts)"
proof (induction ts arbitrary: seen)
  case Nil
  then show ?case by simp
next
  case (Cons t ts)
  then have "topological (insert (taskId t) seen) ts" by simp
  from topological_fresh [OF this] Cons show ?case by auto
qed

lemma schedule_dates:
  assumes "topological (taskId ` set pre) ts"
    and "\<forall>x\<in>set pre. ends (taskId x) = Some (endDate x) \<and> start \<le> endDate x"
  shows "\<forall>t\<in>set (schedule start ends ts). scheduled_at start (pre @ schedule start ends ts) t"
  using assms
proof (induction ts arbitrary: pre ends)
  case Nil
  then show ?case by simp
next
  case (Cons t ts)
  define D where "D = dependsOn t"
  define v where "v = (\<lambda>d. case ends d of Some e \<Rightarrow> e | None \<Rightarrow> start)"
  define s where "s = (if D = [] then start else Max (set (map v D)))"
  define t' where "t' = t\<lparr>startDate := s, endDate := s + int (durationDays t)\<rparr>"
  define ends' where "ends' = ends(taskId t \<mapsto> s + int (durationDays t))"
  define rest where "rest = schedule start ends' ts"
  have sch: "schedule start ends (t # ts) = t' # rest"
    by (simp add: Let_def D_def v_def s_def t'_def ends'_def rest_def)
  have t': "taskId t' = taskId t" "dependsOn t' = D" "startDate t' = s"
    "endDate t' = s + int (durationDays t)" "durationDays t' = durationDays t"
    by (simp_all add: t'_def D_def)
  from Cons.prems(1) have D: "set D \<subseteq> taskId ` set pre" and fresh: "taskId t \<notin> taskId ` set pre"
    and top: "topological (insert (taskId t) (taskId ` set pre)) ts" by (simp_all add: D_def)
  have val: "\<exists>x\<in>set pre. taskId x = d \<and> v d = endDate x \<and> start \<le> endDate x" if "d \<in> set D" for d
  proof -
    from that D obtain x where x: "x \<in> set pre" "taskId x = d" by auto
    then have "ends d = Some (endDate x)" "start \<le> endDate x" using Cons.prems(2) by auto
    then show ?thesis using x by (auto simp: v_def)
  qed
  have le_max: "v d \<le> Max (set (map v D))" if "d \<in> set D" for d
    using that by simp
  have s_ge: "start \<le> s"
  proof (cases "D = []")
    case True
    then show ?thesis by (simp add: s_def)
  next
    case False
    then obtain d where d: "d \<in> set D" by (cases D) auto
    then have "start \<le> v d" using val by force
    then have "start \<le> Max (set (map v D))" using le_max [OF d] by linarith
    then show ?thesis using False by (simp add: s_def)
  qed
  have rest_ids: "taskId ` set rest = taskId ` set ts"
    using schedule_ids [of start ends' ts] unfolding rest_def by (metis set_map)
  have rest_fresh: "taskId ` set rest \<inter> insert (taskId t) (taskId ` set pre) = {}"
    using topological_fresh [OF top] by (simp only: rest_ids)
  define every where "every = pre @ t' # rest"
  have every: "set every = set pre \<union> insert t' (set rest)" by (simp add: every_def)
  have img: "endDate ` {x \<in> set every. taskId x \<in> set D} = set (map v D)"
  proof (intro set_eqI iffI)
    fix e assume "e \<in> endDate ` {x \<in> set every. taskId x \<in> set D}"
    then obtain x where x: "x \<in> set every" "taskId x \<in> set D" "e = endDate x" by auto
    have inpre: "taskId x \<in> taskId ` set pre" using x(2) D by auto
    have "x \<noteq> t'" using inpre fresh t'(1) by metis
    moreover have "x \<notin> set rest" using inpre rest_fresh by auto
    ultimately have "x \<in> set pre" using x(1) every by auto
    then have "ends (taskId x) = Some (endDate x)" using Cons.prems(2) by simp
    then have "v (taskId x) = e" using x(3) by (simp add: v_def)
    then show "e \<in> set (map v D)" using x(2) by auto
  next
    fix e assume "e \<in> set (map v D)"
    then obtain d where d: "d \<in> set D" "e = v d" by auto
    from val [OF d(1)] obtain x where "x \<in> set pre" "taskId x = d" "v d = endDate x" by blast
    then show "e \<in> endDate ` {x \<in> set every. taskId x \<in> set D}" using d every by force
  qed
  have head: "scheduled_at start every t'"
    unfolding scheduled_at_def
  proof (intro conjI impI ballI)
    show "endDate t' = startDate t' + int (durationDays t')" by (simp add: t')
    show "start \<le> startDate t'" using s_ge by (simp add: t')
    show "startDate t' = start" if "dependsOn t' = []" using that by (simp add: t' s_def)
    show "startDate t' = Max (endDate ` {x \<in> set every. taskId x \<in> set (dependsOn t')})"
      if "dependsOn t' \<noteq> []" using that by (simp only: t' img) (simp add: s_def)
    show "\<exists>x\<in>set every. taskId x = d \<and> endDate x \<le> startDate t'" if "d \<in> set (dependsOn t')" for d
    proof -
      have d: "d \<in> set D" using that by (simp add: t')
      from val [OF d] obtain x where x: "x \<in> set pre" "taskId x = d" "v d = endDate x" by blast
      have "D \<noteq> []" using d by auto
      then have "endDate x \<le> s" using le_max [OF d] x(3) by (simp add: s_def)
      then show ?thesis using x every by (auto simp: t')
    qed
  qed
  have pre': "\<forall>x\<in>set (pre @ [t']). ends' (taskId x) = Some (endDate x) \<and> start \<le> endDate x"
  proof
    fix x assume "x \<in> set (pre @ [t'])"
    then consider "x \<in> set pre" | "x = t'" by auto
    then show "ends' (taskId x) = Some (endDate x) \<and> start \<le> endDate x"
    proof cases
      case 1
      then have "taskId x \<noteq> taskId t" using fresh by (metis imageI)
      then show ?thesis using Cons.prems(2) 1 by (simp add: ends'_def)
    next
      case 2
      then show ?thesis using s_ge by (simp add: t' ends'_def)
    qed
  qed
  have top': "topological (taskId ` set (pre @ [t'])) ts" using top by (simp add: t')
  have "\<forall>u\<in>set (schedule start ends' ts). scheduled_at start ((pre @ [t']) @ schedule start ends' ts) u"
    using Cons.IH [OF top' pre'] .
  then have tail: "\<forall>u\<in>set rest. scheduled_at start every u"
    by (simp add: rest_def every_def)
  show ?case unfolding sch using head tail by (simp add: every_def)
qed

lemma balance_frame:
  "map (\<lambda>t. t\<lparr>taskAssignee := []\<rparr>) (balance roster assigned ts)
     = map (\<lambda>t. t\<lparr>taskAssignee := []\<rparr>) (assigned @ ts)"
  by (induction ts arbitrary: assigned) simp_all

lemma least_loaded_member: "roster \<noteq> [] \<Longrightarrow> least_loaded f roster \<in> set roster"
  by (induction f roster rule: least_loaded.induct) (auto simp: Let_def)

lemma balance_assigned:
  assumes "roster \<noteq> []" and "\<forall>t\<in>set assigned. taskAssignee t \<in> set roster"
  shows "\<forall>t\<in>set (balance roster assigned ts). taskAssignee t \<in> set roster"
  using assms(2)
proof (induction ts arbitrary: assigned)
  case Nil
  then show ?case by simp
next
  case (Cons t ts)
  show ?case
  proof (cases "taskAssignee t \<in> set roster")
    case True
    then have "\<forall>x\<in>set (assigned @ [t]). taskAssignee x \<in> set roster" using Cons.prems by auto
    from Cons.IH [OF this] True show ?thesis by simp
  next
    case False
    let ?t' = "t\<lparr>taskAssignee := least_loaded (load (assigned @ t # ts)) roster\<rparr>"
    have "taskAssignee ?t' \<in> set roster" using least_loaded_member [OF assms(1)] by simp
    then have "\<forall>x\<in>set (assigned @ [?t']). taskAssignee x \<in> set roster" using Cons.prems by auto
    from Cons.IH [OF this] False show ?thesis by simp
  qed
qed

lemma generic_name_not_blank: "\<not> is_blank (CHR ''T'' # s)"
  by (simp add: is_blank_def)

lemma effective_roster_ok:
  "effective_roster roster ts \<noteq> [] \<and> (\<forall>m\<in>set (effective_roster roster ts). \<not> is_blank m)"
proof (cases "known_members roster = []")
  case True
  let ?k = "max 1 (length (known_members (map taskAssignee ts)))"
  have "0 < ?k" by simp
  then have "generic_roster ?k \<noteq> []" by (simp add: generic_roster_def)
  moreover have "\<forall>m\<in>set (generic_roster ?k). \<not> is_blank m"
    by (auto simp: generic_roster_def generic_name_not_blank simp del: decimal.simps)
  ultimately show ?thesis using True by (simp add: effective_roster_def)
next
  case False
  have "\<forall>m\<in>set (known_members roster). \<not> is_blank m" by (simp add: known_members_def)
  then show ?thesis using False by (simp add: effective_roster_def)
qed

lemma frame_pairs:
  assumes "map (\<lambda>t. t\<lparr>taskAssignee := []\<rparr>) B = map (\<lambda>t. t\<lparr>taskAssignee := []\<rparr>) S"
  shows "map f (map (\<lambda>t. t\<lparr>taskAssignee := []\<rparr>) B) = map f (map (\<lambda>t. t\<lparr>taskAssignee := []\<rparr>) S)"
  using assms by simp

lemma frame_field:
  assumes "map (\<lambda>t. t\<lparr>taskAssignee := []\<rparr>) B = map (\<lambda>t. t\<lparr>taskAssignee := []\<rparr>) S"
  shows "map taskId B = map taskId S" "map endDate B = map endDate S"
    "map startDate B = map startDate S" "map durationDays B = map durationDays S"
    "map dependsOn B = map dependsOn S"
    "map (\<lambda>x. (taskId x, endDate x)) B = map (\<lambda>x. (taskId x, endDate x)) S"
    "length B = length S"
proof -
  show "map taskId B = map taskId S" using frame_pairs [OF assms, of taskId] by (simp add: comp_def)
  show "map endDate B = map endDate S" using frame_pairs [OF assms, of endDate] by (simp add: comp_def)
  show "map startDate B = map startDate S" using frame_pairs [OF assms, of startDate] by (simp add: comp_def)
  show "map durationDays B = map durationDays S"
    using frame_pairs [OF assms, of durationDays] by (simp add: comp_def)
  show "map dependsOn B = map dependsOn S" using frame_pairs [OF assms, of dependsOn] by (simp add: comp_def)
  show "map (\<lambda>x. (taskId x, endDate x)) B = map (\<lambda>x. (taskId x, endDate x)) S"
    using frame_pairs [OF assms, of "\<lambda>x. (taskId x, endDate x)"] by (simp add: comp_def)
  show "length B = length S" using assms by (metis length_map)
qed

lemma ends_by_pairs:
  "endDate ` {x \<in> set X. taskId x \<in> D} = snd ` {p \<in> set (map (\<lambda>x. (taskId x, endDate x)) X). fst p \<in> D}"
  by force

lemma before_by_pairs:
  "(\<exists>x\<in>set X. taskId x = d \<and> endDate x \<le> c)
     \<longleftrightarrow> (\<exists>p\<in>set (map (\<lambda>x. (taskId x, endDate x)) X). fst p = d \<and> snd p \<le> c)"
  by force

lemma scheduled_at_transfer:
  assumes fr: "map (\<lambda>t. t\<lparr>taskAssignee := []\<rparr>) B = map (\<lambda>t. t\<lparr>taskAssignee := []\<rparr>) S"
    and S: "\<forall>t\<in>set S. scheduled_at start S t"
  shows "\<forall>t\<in>set B. scheduled_at start B t"
proof
  fix t assume "t \<in> set B"
  then obtain i where i: "i < length B" "t = B ! i" by (auto simp: in_set_conv_nth)
  have len: "length B = length S" by (rule frame_field(7) [OF fr])
  let ?s = "S ! i"
  have s: "scheduled_at start S ?s" using S i len by simp
  have f: "endDate t = endDate ?s" "startDate t = startDate ?s" "durationDays t = durationDays ?s"
    "dependsOn t = dependsOn ?s"
    using frame_field(2,3,4,5) [OF fr] i len by (metis nth_map)+
  have p: "map (\<lambda>x. (taskId x, endDate x)) B = map (\<lambda>x. (taskId x, endDate x)) S"
    by (rule frame_field(6) [OF fr])
  have e: "endDate ` {x \<in> set B. taskId x \<in> D} = endDate ` {x \<in> set S. taskId x \<in> D}" for D
    by (simp only: ends_by_pairs p)
  have b: "(\<exists>x\<in>set B. taskId x = d \<and> endDate x \<le> c) \<longleftrightarrow> (\<exists>x\<in>set S. taskId x = d \<and> endDate x \<le> c)" for d c
    by (simp only: before_by_pairs p)
  show "scheduled_at start B t"
    using s unfolding scheduled_at_def by (simp only: f e b) simp
qed

lemma normalize_well_formed: "well_formed (normalize_tasks p)"
proof (cases p)
  case NotASequence
  then show ?thesis by (simp add: well_formed_def)
next
  case (TaskSequence rs)
  have "map taskId (normalize_tasks p) = map fst (enumerate 0 rs)"
    by (simp add: TaskSequence normalize_task_def case_prod_beta comp_def)
  then have ids: "map taskId (normalize_tasks p) = [0..<length (normalize_tasks p)]"
    by (simp add: TaskSequence)
  have "\<forall>t\<in>set (normalize_tasks p). \<forall>d\<in>set (dependsOn t). d < length (normalize_tasks p)"
    by (auto simp: TaskSequence normalize_task_def)
  then show ?thesis using ids by (simp add: well_formed_def)
qed

lemma normalize_durations: "\<forall>t\<in>set (normalize_tasks p). 0 < durationDays t"
  by (cases p) (auto simp: normalize_task_def default_duration_def split: option.splits)

lemma requested_total_pos: "0 < requested_total r h"
  by (simp add: requested_total_def default_total_def split: option.splits)

lemma fallback_facts:
  assumes "0 < days"
  shows "fallback_tasks days \<noteq> []" "well_formed (fallback_tasks days)"
    "\<forall>t\<in>set (fallback_tasks days). 0 < durationDays t"
proof -
  define k where "k = min (length phases) days"
  have k: "0 < k" "k \<le> days" using assms by (simp_all add: k_def phases_def)
  show "fallback_tasks days \<noteq> []" using k(1) by (simp add: fallback_tasks_def Let_def k_def [symmetric])
  have "map taskId (fallback_tasks days) = [0..<k]"
    by (simp add: fallback_tasks_def Let_def k_def [symmetric] comp_def)
  moreover have "length (fallback_tasks days) = k"
    by (simp add: fallback_tasks_def Let_def k_def [symmetric])
  moreover have "\<forall>t\<in>set (fallback_tasks days). \<forall>d\<in>set (dependsOn t). d < k"
    by (auto simp: fallback_tasks_def Let_def k_def [symmetric])
  ultimately show "well_formed (fallback_tasks days)" by (simp add: well_formed_def)
  have "1 \<le> days div k" using k by (simp add: Suc_le_eq div_greater_zero_iff)
  then show "\<forall>t\<in>set (fallback_tasks days). 0 < durationDays t"
    by (auto simp: fallback_tasks_def Let_def k_def [symmetric])
qed

lemma resolved_durations: "set (map durationDays (resolved_tasks ts)) = set (map durationDays ts)"
proof -
  have "map durationDays xs = map durationDays (map (\<lambda>t. t\<lparr>dependsOn := []\<rparr>) xs)" for xs :: "Task list"
    by (simp add: comp_def)
  then have "mset (map durationDays (resolved_tasks ts))
      = image_mset durationDays (mset (map (\<lambda>t. t\<lparr>dependsOn := []\<rparr>) (resolved_tasks ts)))"
    "mset (map durationDays ts) = image_mset durationDays (mset (map (\<lambda>t. t\<lparr>dependsOn := []\<rparr>) ts))"
    by (metis mset_map)+
  then have "mset (map durationDays (resolved_tasks ts)) = mset (map durationDays ts)"
    by (simp only: resolved_kept)
  then show ?thesis by (rule mset_eq_setD)
qed

lemma resolved_length: "length (resolved_tasks ts) = length ts"
proof -
  have "size (mset (map (\<lambda>t. t\<lparr>dependsOn := []\<rparr>) (resolved_tasks ts)))
          = size (mset (map (\<lambda>t. t\<lparr>dependsOn := []\<rparr>) ts))"
    by (simp only: resolved_kept)
  then show ?thesis by simp
qed

lemma schedule_durations: "map durationDays (schedule start ends ts) = map durationDays ts"
  by (induction ts arbitrary: ends) (simp_all add: Let_def)

lemma schedule_length: "length (schedule start ends ts) = length ts"
  using schedule_ids [of start ends ts] by (metis length_map)

lemma plan_tasks_facts:
  assumes wf: "well_formed ts" and ne: "ts \<noteq> []" and dur: "\<forall>t\<in>set ts. 0 < durationDays t"
  shows "plan_tasks ts roster start \<noteq> []"
    and "\<forall>t\<in>set (plan_tasks ts roster start). scheduled_at start (plan_tasks ts roster start) t"
    and "\<forall>t\<in>set (plan_tasks ts roster start). 0 < durationDays t"
    and "\<forall>t\<in>set (plan_tasks ts roster start). \<not> is_blank (taskAssignee t)"
    and "distinct (map taskId (plan_tasks ts roster start))"
    and "length (plan_tasks ts roster start) = length ts"
proof -
  define S where "S = schedule start Map.empty (resolve ts)"
  define R where "R = effective_roster roster S"
  define T where "T = balance R [] S"
  have T: "plan_tasks ts roster start = T" by (simp add: plan_tasks_def Let_def S_def R_def T_def)
  have fr: "map (\<lambda>t. t\<lparr>taskAssignee := []\<rparr>) T = map (\<lambda>t. t\<lparr>taskAssignee := []\<rparr>) S"
    using balance_frame [of R "[]" S] by (simp add: T_def)
  have top: "topological {} (resolve ts)" using resolved_topological [OF wf] by (simp add: resolve_eq)
  have lenS: "length S = length ts" by (simp add: S_def schedule_length resolve_eq resolved_length)
  have len: "length T = length ts" using frame_field(7) [OF fr] lenS by simp
  show "length (plan_tasks ts roster start) = length ts" using len by (simp add: T)
  show "plan_tasks ts roster start \<noteq> []" using len ne by (auto simp: T)
  have "\<forall>t\<in>set S. scheduled_at start ([] @ S) t"
    unfolding S_def by (rule schedule_dates) (simp_all add: top)
  then have "\<forall>t\<in>set S. scheduled_at start S t" by simp
  then have "\<forall>t\<in>set T. scheduled_at start T t" by (rule scheduled_at_transfer [OF fr])
  then show "\<forall>t\<in>set (plan_tasks ts roster start). scheduled_at start (plan_tasks ts roster start) t"
    by (simp add: T)
  have "map durationDays T = map durationDays (resolved_tasks ts)"
    using frame_field(4) [OF fr] by (simp add: S_def schedule_durations resolve_eq)
  then have "set (map durationDays T) = set (map durationDays ts)"
    by (simp only: resolved_durations)
  then have "\<forall>t\<in>set T. 0 < durationDays t" using dur by (metis (no_types, lifting) image_iff set_map)
  then show "\<forall>t\<in>set (plan_tasks ts roster start). 0 < durationDays t" by (simp add: T)
  have ro: "R \<noteq> []" "\<forall>m\<in>set R. \<not> is_blank m" using effective_roster_ok [of roster S] by (simp_all add: R_def)
  have "\<forall>t\<in>set (balance R [] S). taskAssignee t \<in> set R" by (rule balance_assigned [OF ro(1)]) simp
  then have "\<forall>t\<in>set T. \<not> is_blank (taskAssignee t)" using ro(2) by (simp add: T_def)
  then show "\<forall>t\<in>set (plan_tasks ts roster start). \<not> is_blank (taskAssignee t)" by (simp add: T)
  have "map taskId T = map taskId (resolve ts)"
    using frame_field(1) [OF fr] by (simp add: S_def schedule_ids)
  then have "distinct (map taskId T)" using topological_distinct [OF top] by simp
  then show "distinct (map taskId (plan_tasks ts roster start))" by (simp add: T)
qed

lemma assemble_facts:
  assumes ne: "T \<noteq> []" and sch: "\<forall>t\<in>set T. scheduled_at start T t"
  shows "planTasks (assemble pn start T) = T" "planStartDate (assemble pn start T) = start"
    "teamMembers (assemble pn start T) = remdups (map taskAssignee T)"
    "planEndDate (assemble pn start T) = start + int (totalDurationDays (assemble pn start T))"
    "planEndDate (assemble pn start T) = Max (set (map endDate T))"
    "int (totalDurationDays (assemble pn start T)) = Max (set (map endDate T)) - start"
proof -
  from ne obtain t where t: "t \<in> set T" by (cases T) auto
  then have "start \<le> endDate t" using sch by (fastforce simp: scheduled_at_def)
  moreover have "endDate t \<le> Max (set (map endDate T))" using t by simp
  ultimately have m: "start \<le> Max (set (map endDate T))" by linarith
  show "planTasks (assemble pn start T) = T" "planStartDate (assemble pn start T) = start"
    "teamMembers (assemble pn start T) = remdups (map taskAssignee T)"
    "planEndDate (assemble pn start T) = start + int (totalDurationDays (assemble pn start T))"
    by (simp_all add: assemble_def Let_def)
  show "planEndDate (assemble pn start T) = Max (set (map endDate T))"
    using m ne by (simp add: assemble_def Let_def)
  show "int (totalDurationDays (assemble pn start T)) = Max (set (map endDate T)) - start"
    using m ne by (simp add: assemble_def Let_def)
qed

lemma generatePlan_shape:
  "\<exists>ts roster. well_formed ts \<and> ts \<noteq> [] \<and> (\<forall>t\<in>set ts. 0 < durationDays t) \<and>
     generatePlan req = assemble (project_name (transcript req)) (request_startDate req)
                          (plan_tasks ts roster (request_startDate req))"
proof -
  define normalized where
    "normalized = (case upstream_result req of Returned payload \<Rightarrow> normalize_tasks payload | _ \<Rightarrow> [])"
  define ws where "ws = transcript_words (transcript req)"
  define ts where "ts = (if normalized \<noteq> [] then normalized
     else fallback_tasks (requested_total (request_totalDuration req) (duration_hint ws)))"
  define roster where "roster = (if normalized \<noteq> [] then request_roster req
     else fallback_roster (request_roster req) (team_hint ws))"
  have g: "generatePlan req = assemble (project_name (transcript req)) (request_startDate req)
                          (plan_tasks ts roster (request_startDate req))"
    by (simp add: generatePlan_def Let_def normalized_def ws_def ts_def roster_def)
  have n: "well_formed normalized \<and> (\<forall>t\<in>set normalized. 0 < durationDays t)"
    using normalize_well_formed normalize_durations
    by (auto simp: normalized_def well_formed_def split: upstream.splits)
  have "well_formed ts \<and> ts \<noteq> [] \<and> (\<forall>t\<in>set ts. 0 < durationDays t)"
  proof (cases "normalized = []")
    case True
    then show ?thesis using fallback_facts [OF requested_total_pos] by (simp add: ts_def)
  next
    case False
    then show ?thesis using n by (simp add: ts_def)
  qed
  then show ?thesis using g by blast
qed

lemma schedule_names: "map taskName (schedule start ends ts) = map taskName ts"
  by (induction ts arbitrary: ends) (simp_all add: Let_def)

lemma balance_names: "map taskName (balance roster assigned ts) = map taskName (assigned @ ts)"
  by (induction ts arbitrary: assigned) simp_all

lemma resolved_names: "mset (map taskName (resolved_tasks ts)) = mset (map taskName ts)"
proof -
  have "map taskName xs = map taskName (map (\<lambda>t. t\<lparr>dependsOn := []\<rparr>) xs)" for xs :: "Task list"
    by (simp add: comp_def)
  then have "mset (map taskName (resolved_tasks ts))
      = image_mset taskName (mset (map (\<lambda>t. t\<lparr>dependsOn := []\<rparr>) (resolved_tasks ts)))"
    "mset (map taskName ts) = image_mset taskName (mset (map (\<lambda>t. t\<lparr>dependsOn := []\<rparr>) ts))"
    by (metis mset_map)+
  then show ?thesis by (simp only: resolved_kept)
qed

lemma plan_tasks_names: "mset (map taskName (plan_tasks ts roster start)) = mset (map taskName ts)"
proof -
  have "map taskName (plan_tasks ts roster start) = map taskName (resolved_tasks ts)"
    by (simp add: plan_tasks_def Let_def balance_names schedule_names resolve_eq)
  then show ?thesis by (simp only: resolved_names)
qed

lemma generatePlan_returned:
  assumes "upstream_result req = Returned (TaskSequence rs)" and "rs \<noteq> []"
  shows "planTasks (generatePlan req)
           = plan_tasks (normalize_tasks (TaskSequence rs)) (request_roster req) (request_startDate req)"
proof -
  have "length (normalize_tasks (TaskSequence rs)) = length rs" by simp
  then have "normalize_tasks (TaskSequence rs) \<noteq> []" using assms(2) by (metis length_0_conv)
  then show ?thesis using assms(1) by (simp add: generatePlan_def Let_def assemble_def)
qed

text \<open>
  Claim C1. For every request, whatever the upstream call returned (nothing, because it
  failed or timed out; something that is not a sequence; an empty sequence; items with
  missing or malformed fields; a cyclic dependency graph), the engine returns a plan:
  its task list is not empty and ids are not reused, the plan starts at the requested
  date and ends \<open>totalDurationDays\<close> later, the team is not empty, and every task has
  a positive duration, starts no earlier than the plan, ends \<open>durationDays\<close> after it
  starts and no later than the plan, has a non-blank assignee who is a team member, and
  starts no earlier than the end of each of its prerequisites, all of which are in the
  plan. \<open>generatePlan\<close> has no error result: the resolver's error is recovered inside.
\<close>

theorem generatePlan_total_valid:
  "planTasks (generatePlan req) \<noteq> [] \<and>
   planStartDate (generatePlan req) = request_startDate req \<and>
   planEndDate (generatePlan req) = planStartDate (generatePlan req) + int (totalDurationDays (generatePlan req)) \<and>
   teamMembers (generatePlan req) \<noteq> [] \<and>
   distinct (map taskId (planTasks (generatePlan req))) \<and>
   (\<forall>t\<in>set (planTasks (generatePlan req)).
      0 < durationDays t \<and>
      planStartDate (generatePlan req) \<le> startDate t \<and>
      endDate t = startDate t + int (durationDays t) \<and>
      endDate t \<le> planEndDate (generatePlan req) \<and>
      taskAssignee t \<noteq> [] \<and> \<not> is_blank (taskAssignee t) \<and>
      taskAssignee t \<in> set (teamMembers (generatePlan req)) \<and>
      (\<forall>d\<in>set (dependsOn t).
         \<exists>x\<in>set (planTasks (generatePlan req)). taskId x = d \<and> endDate x \<le> startDate t))"
proof -
  from generatePlan_shape [of req] obtain ts roster where
    wf: "well_formed ts" and ne: "ts \<noteq> []" and dur: "\<forall>t\<in>set ts. 0 < durationDays t"
    and g: "generatePlan req = assemble (project_name (transcript req)) (request_startDate req)
                          (plan_tasks ts roster (request_startDate req))"
    by blast
  define start where "start = request_startDate req"
  define T where "T = plan_tasks ts roster start"
  note pf = plan_tasks_facts [OF wf ne dur, of roster start, folded T_def]
  note af = assemble_facts [OF pf(1) pf(2), of "project_name (transcript req)"]
  have g': "generatePlan req = assemble (project_name (transcript req)) start T"
    using g by (simp add: start_def T_def)
  have 1: "planTasks (generatePlan req) = T" by (simp only: g' af(1))
  have 2: "planStartDate (generatePlan req) = start" by (simp only: g' af(2))
  have 3: "teamMembers (generatePlan req) = remdups (map taskAssignee T)" by (simp only: g' af(3))
  have 4: "planEndDate (generatePlan req) = start + int (totalDurationDays (generatePlan req))"
    by (simp only: g' af(4))
  have 5: "planEndDate (generatePlan req) = Max (set (map endDate T))" by (simp only: g' af(5))
  have each: "0 < durationDays t \<and> start \<le> startDate t \<and>
      endDate t = startDate t + int (durationDays t) \<and>
      endDate t \<le> Max (set (map endDate T)) \<and>
      taskAssignee t \<noteq> [] \<and> \<not> is_blank (taskAssignee t) \<and>
      taskAssignee t \<in> set (remdups (map taskAssignee T)) \<and>
      (\<forall>d\<in>set (dependsOn t). \<exists>x\<in>set T. taskId x = d \<and> endDate x \<le> startDate t)"
    if t: "t \<in> set T" for t
  proof -
    have s: "scheduled_at start T t" using pf(2) t by blast
    have nb: "\<not> is_blank (taskAssignee t)" using pf(4) t by blast
    then have "taskAssignee t \<noteq> []" by (auto simp: is_blank_def)
    moreover have "endDate t \<le> Max (set (map endDate T))" using t by simp
    moreover have "0 < durationDays t" using pf(3) t by blast
    moreover have "taskAssignee t \<in> set (remdups (map taskAssignee T))" using t by simp
    moreover have "endDate t = startDate t + int (durationDays t) \<and> start \<le> startDate t \<and>
      (\<forall>d\<in>set (dependsOn t). \<exists>x\<in>set T. taskId x = d \<and> endDate x \<le> startDate t)"
      using s unfolding scheduled_at_def by blast
    ultimately show ?thesis using nb by blast
  qed
  have A1: "planTasks (generatePlan req) \<noteq> []" unfolding 1 by (rule pf(1))
  have A2: "planStartDate (generatePlan req) = request_startDate req" unfolding 2 by (simp add: start_def)
  have A3: "planEndDate (generatePlan req)
              = planStartDate (generatePlan req) + int (totalDurationDays (generatePlan req))"
    unfolding 2 by (rule 4)
  have A4: "teamMembers (generatePlan req) \<noteq> []" unfolding 3 using pf(1) by simp
  have A5: "distinct (map taskId (planTasks (generatePlan req)))" unfolding 1 by (rule pf(5))
  have B: "\<forall>t\<in>set (planTasks (generatePlan req)).
      0 < durationDays t \<and>
      planStartDate (generatePlan req) \<le> startDate t \<and>
      endDate t = startDate t + int (durationDays t) \<and>
      endDate t \<le> planEndDate (generatePlan req) \<and>
      taskAssignee t \<noteq> [] \<and> \<not> is_blank (taskAssignee t) \<and>
      taskAssignee t \<in> set (teamMembers (generatePlan req)) \<and>
      (\<forall>d\<in>set (dependsOn t).
         \<exists>x\<in>set (planTasks (generatePlan req)). taskId x = d \<and> endDate x \<le> startDate t)"
    unfolding 1 2 3 5 using each by blast
  from A1 A2 A3 A4 A5 B show ?thesis by blast
qed

theorem generatePlan_total_valid_witness:
  "planTasks (generatePlan six_weeks) ! 1 \<in> set (planTasks (generatePlan six_weeks)) \<and>
   0 \<in> set (dependsOn (planTasks (generatePlan six_weeks) ! 1)) \<and>
   0 < durationDays (planTasks (generatePlan six_weeks) ! 1) \<and>
   endDate (planTasks (generatePlan six_weeks) ! 1)
     = startDate (planTasks (generatePlan six_weeks) ! 1)
       + int (durationDays (planTasks (generatePlan six_weeks) ! 1)) \<and>
   taskAssignee (planTasks (generatePlan six_weeks) ! 1) \<in> set (teamMembers (generatePlan six_weeks)) \<and>
   (\<exists>x\<in>set (planTasks (generatePlan six_weeks)).
      taskId x = 0 \<and> endDate x \<le> startDate (planTasks (generatePlan six_weeks) ! 1)) \<and>
   planTasks (generatePlan six_weeks) \<noteq> [] \<and>
   planEndDate (generatePlan six_weeks) = day_2024_01_01 + 42"
proof -
  have len: "length (planTasks (generatePlan six_weeks)) = 5" by code_simp
  have mem: "planTasks (generatePlan six_weeks) ! 1 \<in> set (planTasks (generatePlan six_weeks))"
    by (rule nth_mem) (simp add: len)
  have dep: "0 \<in> set (dependsOn (planTasks (generatePlan six_weeks) ! 1))" by code_simp
  have total: "planEndDate (generatePlan six_weeks) = day_2024_01_01 + 42" by code_simp
  note th = generatePlan_total_valid [of six_weeks]
  note each = th [THEN conjunct2, THEN conjunct2, THEN conjunct2, THEN conjunct2, THEN conjunct2,
      rule_format, OF mem]
  have before: "\<exists>x\<in>set (planTasks (generatePlan six_weeks)).
      taskId x = 0 \<and> endDate x \<le> startDate (planTasks (generatePlan six_weeks) ! 1)"
    using each dep by blast
  from mem dep each before th [THEN conjunct1] total show ?thesis by blast
qed

text \<open>
  Claim C2. In every generated plan a task without dependencies starts at the plan's start
  date, a task with dependencies starts at the greatest end date among its
  prerequisites, and every task ends \<open>durationDays\<close> after it starts (so a 1-day task
  starting on day 0 ends on day 1); the total duration is the greatest end date minus
  the start date. For Design (5 days) and Build (10 days, after Design) from
  1 January 2024, Design spans days 0 to 5, Build days 5 to 15, and the total is 15.
\<close>

theorem generatePlan_dates:
  "(\<forall>t\<in>set (planTasks (generatePlan req)).
      (dependsOn t = [] \<longrightarrow> startDate t = planStartDate (generatePlan req)) \<and>
      (dependsOn t \<noteq> [] \<longrightarrow>
         startDate t = Max (endDate ` {x \<in> set (planTasks (generatePlan req)). taskId x \<in> set (dependsOn t)})) \<and>
      endDate t = startDate t + int (durationDays t)) \<and>
   int (totalDurationDays (generatePlan req))
     = Max (set (map endDate (planTasks (generatePlan req)))) - planStartDate (generatePlan req) \<and>
   map (\<lambda>t. (taskName t, startDate t - day_2024_01_01, endDate t - day_2024_01_01))
       (planTasks (generatePlan design_build)) = [(''Design'', 0, 5), (''Build'', 5, 15)] \<and>
   totalDurationDays (generatePlan design_build) = 15"
proof -
  from generatePlan_shape [of req] obtain ts roster where
    wf: "well_formed ts" and ne: "ts \<noteq> []" and dur: "\<forall>t\<in>set ts. 0 < durationDays t"
    and g: "generatePlan req = assemble (project_name (transcript req)) (request_startDate req)
                          (plan_tasks ts roster (request_startDate req))"
    by blast
  define start where "start = request_startDate req"
  define T where "T = plan_tasks ts roster start"
  note pf = plan_tasks_facts [OF wf ne dur, of roster start, folded T_def]
  note af = assemble_facts [OF pf(1) pf(2), of "project_name (transcript req)"]
  have g': "generatePlan req = assemble (project_name (transcript req)) start T"
    using g by (simp add: start_def T_def)
  have 1: "planTasks (generatePlan req) = T" by (simp only: g' af(1))
  have 2: "planStartDate (generatePlan req) = start" by (simp only: g' af(2))
  have 6: "int (totalDurationDays (generatePlan req)) = Max (set (map endDate T)) - start"
    by (simp only: g' af(6))
  have each: "(dependsOn t = [] \<longrightarrow> startDate t = start) \<and>
      (dependsOn t \<noteq> [] \<longrightarrow> startDate t = Max (endDate ` {x \<in> set T. taskId x \<in> set (dependsOn t)})) \<and>
      endDate t = startDate t + int (durationDays t)" if "t \<in> set T" for t
    using pf(2) that by (simp add: scheduled_at_def)
  have a: "map (\<lambda>t. (taskName t, startDate t - day_2024_01_01, endDate t - day_2024_01_01))
       (planTasks (generatePlan design_build)) = [(''Design'', 0, 5), (''Build'', 5, 15)]"
    by code_simp
  have b: "totalDurationDays (generatePlan design_build) = 15" by code_simp
  show ?thesis using each 6 a b by (simp only: 1 2) blast
qed

theorem generatePlan_dates_witness:
  "planTasks (generatePlan design_build) ! 0 \<in> set (planTasks (generatePlan design_build)) \<and>
   dependsOn (planTasks (generatePlan design_build) ! 0) = [] \<and>
   startDate (planTasks (generatePlan design_build) ! 0) = planStartDate (generatePlan design_build) \<and>
   planTasks (generatePlan design_build) ! 1 \<in> set (planTasks (generatePlan design_build)) \<and>
   dependsOn (planTasks (generatePlan design_build) ! 1) \<noteq> [] \<and>
   startDate (planTasks (generatePlan design_build) ! 1)
     = Max (endDate ` {x \<in> set (planTasks (generatePlan design_build)).
                        taskId x \<in> set (dependsOn (planTasks (generatePlan design_build) ! 1))}) \<and>
   endDate (planTasks (generatePlan design_build) ! 1)
     = startDate (planTasks (generatePlan design_build) ! 1)
       + int (durationDays (planTasks (generatePlan design_build) ! 1))"
proof -
  have len: "length (planTasks (generatePlan design_build)) = 2" by code_simp
  have m0: "planTasks (generatePlan design_build) ! 0 \<in> set (planTasks (generatePlan design_build))"
    by (rule nth_mem) (simp add: len)
  have m1: "planTasks (generatePlan design_build) ! 1 \<in> set (planTasks (generatePlan design_build))"
    by (rule nth_mem) (simp add: len)
  have d0: "dependsOn (planTasks (generatePlan design_build) ! 0) = []" by code_simp
  have d1: "dependsOn (planTasks (generatePlan design_build) ! 1) \<noteq> []" by code_simp
  note th = generatePlan_dates [of design_build]
  note e0 = th [THEN conjunct1, rule_format, OF m0]
  note e1 = th [THEN conjunct1, rule_format, OF m1]
  from m0 m1 d0 d1 e0 e1 show ?thesis by blast
qed

text \<open>
  Claim C7. For a normalised task list (ids are positions, dependencies are ids of tasks),
  the resolver keeps every task, changing nothing but \<open>dependsOn\<close>; the dependency
  graph of its result is the graph of its input without the back edges; every back edge
  completes a cycle of the input (its prerequisite depends, through zero or more steps,
  on the task itself); no edge is dropped exactly when the input has no cycle; the
  result is in topological order and its graph is acyclic. For the cycle of three tasks
  A, B, C one edge is dropped and all three tasks come out, in the order B, C, A, where
  the strict resolver reports \<open>CyclicDependency\<close>; and whenever the upstream call
  returned a non-empty sequence, cyclic or not, the generated plan has exactly its
  tasks.
\<close>

theorem resolve_breaks_cycles:
  assumes "well_formed ts"
  shows "mset (map (\<lambda>t. t\<lparr>dependsOn := []\<rparr>) (resolve ts)) = mset (map (\<lambda>t. t\<lparr>dependsOn := []\<rparr>) ts) \<and>
    length (resolve ts) = length ts \<and>
    depends_by_id (resolve ts) = depends ts - set (back_edges ts) \<and>
    (back_edges ts = [] \<longleftrightarrow> acyclic (depends ts)) \<and>
    topological {} (resolve ts) \<and>
    acyclic (depends_by_id (resolve ts)) \<and>
    back_edges three_cycle = [(1, 0)] \<and>
    map taskName (resolve three_cycle) = [''B'', ''C'', ''A''] \<and>
    resolve_strict three_cycle = Inl (CyclicDependency [1, 0]) \<and>
    (\<forall>e\<in>set (back_edges ts). e \<in> depends ts \<and> (snd e, fst e) \<in> (depends ts)\<^sup>*) \<and>
    (\<forall>req rs. upstream_result req = Returned (TaskSequence rs) \<longrightarrow> rs \<noteq> [] \<longrightarrow>
       mset (map taskName (planTasks (generatePlan req))) = mset (map taskName (normalize_tasks (TaskSequence rs))))"
proof -
  have top: "topological {} (resolve ts)" using resolved_topological [OF assms] by (simp add: resolve_eq)
  have e: "back_edges three_cycle = [(1, 0)]" "map taskName (resolve three_cycle) = [''B'', ''C'', ''A'']"
    "resolve_strict three_cycle = Inl (CyclicDependency [1, 0])"
    by code_simp+
  have be: "\<forall>e\<in>set (back_edges ts). e \<in> depends ts \<and> (snd e, fst e) \<in> (depends ts)\<^sup>*"
    using back_edge_cycle [OF assms] by auto
  have names: "\<forall>req rs. upstream_result req = Returned (TaskSequence rs) \<longrightarrow> rs \<noteq> [] \<longrightarrow>
       mset (map taskName (planTasks (generatePlan req))) = mset (map taskName (normalize_tasks (TaskSequence rs)))"
  proof (intro allI impI)
    fix req :: request and rs
    assume "upstream_result req = Returned (TaskSequence rs)" "rs \<noteq> []"
    then have "planTasks (generatePlan req)
           = plan_tasks (normalize_tasks (TaskSequence rs)) (request_roster req) (request_startDate req)"
      by (rule generatePlan_returned)
    then show "mset (map taskName (planTasks (generatePlan req))) = mset (map taskName (normalize_tasks (TaskSequence rs)))"
      by (simp only: plan_tasks_names)
  qed
  show ?thesis
    using top topological_acyclic [OF top] no_back_edges_iff [OF assms] resolved_graph [OF assms]
      resolved_kept [of ts] resolved_length [of ts] e be names
    by (simp only: resolve_eq)
qed

theorem resolve_breaks_cycles_witness:
  "well_formed three_cycle \<and>
   length (resolve three_cycle) = length three_cycle \<and>
   topological {} (resolve three_cycle) \<and>
   acyclic (depends_by_id (resolve three_cycle)) \<and>
   \<not> acyclic (depends three_cycle) \<and>
   (1, 0) \<in> set (back_edges three_cycle) \<and>
   (1, 0) \<in> depends three_cycle \<and> (0, 1) \<in> (depends three_cycle)\<^sup>* \<and>
   upstream_result cyclic_request = Returned (TaskSequence cyclic_items) \<and> cyclic_items \<noteq> [] \<and>
   mset (map taskName (planTasks (generatePlan cyclic_request))) = mset (map taskName three_cycle)"
proof -
  have wf: "well_formed three_cycle" unfolding three_cycle_def by (rule normalize_well_formed)
  note th = resolve_breaks_cycles [OF wf]
  have be: "back_edges three_cycle = [(1, 0)]" using th by blast
  then have mem: "(1, 0) \<in> set (back_edges three_cycle)" by simp
  have cyc: "\<not> acyclic (depends three_cycle)" using th be by simp
  have "\<forall>e\<in>set (back_edges three_cycle). e \<in> depends three_cycle \<and> (snd e, fst e) \<in> (depends three_cycle)\<^sup>*"
    using th by blast
  from this [rule_format, OF mem] have edge: "(1, 0) \<in> depends three_cycle" "(0, 1) \<in> (depends three_cycle)\<^sup>*"
    by simp_all
  have up: "upstream_result cyclic_request = Returned (TaskSequence cyclic_items)"
    by (simp add: cyclic_request_def)
  have ne: "cyclic_items \<noteq> []" by (simp add: cyclic_items_def)
  have "\<forall>req rs. upstream_result req = Returned (TaskSequence rs) \<longrightarrow> rs \<noteq> [] \<longrightarrow>
       mset (map taskName (planTasks (generatePlan req))) = mset (map taskName (normalize_tasks (TaskSequence rs)))"
    using th by blast
  from this [rule_format, OF up ne]
  have names: "mset (map taskName (planTasks (generatePlan cyclic_request))) = mset (map taskName three_cycle)"
    by (simp only: three_cycle_def)
  have a: "length (resolve three_cycle) = length three_cycle" "topological {} (resolve three_cycle)"
    "acyclic (depends_by_id (resolve three_cycle))" using th by blast+
  from wf a cyc mem edge up ne names show ?thesis by blast
qed

end
